theory Spec2Isabelle
  imports Complex_Main "HOL-Library.Multiset"
begin

section \<open>Numbers\<close>

subsection \<open>Rounding to the nearest integer\<close>

text \<open>
  \<open>math.round\<close> is NumPy's rounding: to the nearest integer, a tie going to the even
  neighbour.
\<close>

definition math_round :: "real \<Rightarrow> int" where
  "math_round x =
     (let f = \<lfloor>x\<rfloor>; d = x - of_int f
      in if d < 1 / 2 then f else if 1 / 2 < d then f + 1 else if even f then f else f + 1)"

subsection \<open>float64\<close>

text \<open>
  A float64 is a finite value or one of the three special values of IEEE 754. The result
  of an operation on finite values is the exact result rounded to the nearest binary64
  number, a tie going to the even significand: the exact result is scaled by the unit in
  the last place of its binade (52 bits below its leading bit, and never below the
  subnormal spacing \<open>2\<^sup>-\<^sup>1\<^sup>0\<^sup>7\<^sup>4\<close>), rounded to an integer, and scaled back; a result that
  rounds to \<open>2\<^sup>1\<^sup>0\<^sup>2\<^sup>4\<close> or beyond is an infinity. A finite input is taken to be a binary64
  number. The sign of zero is not kept: the divisors of the program are differences
  (a zero difference is \<open>+0\<close>) and a positive count. NumPy arithmetic raises nothing on
  these values; a division by zero yields an infinity or NaN.
\<close>

datatype float64 = Fin real | PInf | NInf | NaN

text \<open>The infinity carrying the sign of a finite factor; \<open>0 * inf\<close> and \<open>0 / 0\<close> are NaN.\<close>

definition signed_inf :: "real \<Rightarrow> float64" where
  "signed_inf a = (if a = 0 then NaN else if 0 < a then PInf else NInf)"

definition ulp :: "real \<Rightarrow> real" where
  "ulp x = 2 powi (max \<lfloor>log 2 \<bar>x\<bar>\<rfloor> (- 1022) - 52)"

definition round_f64 :: "real \<Rightarrow> float64" where
  "round_f64 x =
     (if x = 0 then Fin 0
      else let y = of_int (math_round (x / ulp x)) * ulp x
           in if 2 ^ 1024 \<le> \<bar>y\<bar> then signed_inf y else Fin y)"

fun fneg :: "float64 \<Rightarrow> float64" where
  "fneg (Fin a) = Fin (- a)"
| "fneg PInf = NInf"
| "fneg NInf = PInf"
| "fneg NaN = NaN"

fun fadd :: "float64 \<Rightarrow> float64 \<Rightarrow> float64" where
  "fadd (Fin a) (Fin b) = round_f64 (a + b)"
| "fadd NaN _ = NaN"
| "fadd _ NaN = NaN"
| "fadd PInf NInf = NaN"
| "fadd NInf PInf = NaN"
| "fadd PInf _ = PInf"
| "fadd _ PInf = PInf"
| "fadd NInf _ = NInf"
| "fadd _ NInf = NInf"

definition fsub :: "float64 \<Rightarrow> float64 \<Rightarrow> float64" where
  "fsub x y = fadd x (fneg y)"

fun fmul :: "float64 \<Rightarrow> float64 \<Rightarrow> float64" where
  "fmul (Fin a) (Fin b) = round_f64 (a * b)"
| "fmul NaN _ = NaN"
| "fmul _ NaN = NaN"
| "fmul PInf (Fin b) = signed_inf b"
| "fmul (Fin a) PInf = signed_inf a"
| "fmul NInf (Fin b) = signed_inf (- b)"
| "fmul (Fin a) NInf = signed_inf (- a)"
| "fmul PInf PInf = PInf"
| "fmul NInf NInf = PInf"
| "fmul PInf NInf = NInf"
| "fmul NInf PInf = NInf"

fun fdiv :: "float64 \<Rightarrow> float64 \<Rightarrow> float64" where
  "fdiv (Fin a) (Fin b) = (if b = 0 then signed_inf a else round_f64 (a / b))"
| "fdiv NaN _ = NaN"
| "fdiv _ NaN = NaN"
| "fdiv (Fin a) PInf = Fin 0"
| "fdiv (Fin a) NInf = Fin 0"
| "fdiv PInf (Fin b) = (if 0 \<le> b then PInf else NInf)"
| "fdiv NInf (Fin b) = (if 0 \<le> b then NInf else PInf)"
| "fdiv _ _ = NaN"

subsection \<open>int64 and the promotion of scalars\<close>

text \<open>
  A Python \<open>int\<close> becomes an int64 in an array, and int64 arithmetic wraps around. An
  operation on two integers is an integer operation; as soon as one operand is a float
  the integer is converted (rounded to the nearest float64) and the operation is a float
  operation. The division \<open>/\<close> is always a float division.
\<close>

definition wrap64 :: "int \<Rightarrow> int" where
  "wrap64 k = (k + 2 ^ 63) mod 2 ^ 64 - 2 ^ 63"

datatype scalar = I int | F float64

fun is_int :: "scalar \<Rightarrow> bool" where
  "is_int (I k) = True"
| "is_int (F x) = False"

fun to_float :: "scalar \<Rightarrow> float64" where
  "to_float (I k) = round_f64 (of_int k)"
| "to_float (F x) = x"

fun sadd :: "scalar \<Rightarrow> scalar \<Rightarrow> scalar" where
  "sadd (I a) (I b) = I (wrap64 (a + b))"
| "sadd x y = F (fadd (to_float x) (to_float y))"

fun ssub :: "scalar \<Rightarrow> scalar \<Rightarrow> scalar" where
  "ssub (I a) (I b) = I (wrap64 (a - b))"
| "ssub x y = F (fsub (to_float x) (to_float y))"

fun smul :: "scalar \<Rightarrow> scalar \<Rightarrow> scalar" where
  "smul (I a) (I b) = I (wrap64 (a * b))"
| "smul x y = F (fmul (to_float x) (to_float y))"

definition sdiv :: "scalar \<Rightarrow> scalar \<Rightarrow> scalar" where
  "sdiv x y = F (fdiv (to_float x) (to_float y))"

subsection \<open>Sums of float arrays\<close>

text \<open>
  \<open>math.sum\<close> of a float array adds the elements up in an order that is the framework's
  (NumPy sums fewer than eight elements from left to right, starting from zero, and
  longer arrays in blocks and pairs). The reduction is a parameter \<open>math_sum\<close> of the
  functions below; what is known of it is that it adds the elements up in some order.
\<close>

inductive adds_up :: "float64 list \<Rightarrow> float64 \<Rightarrow> bool" where
  empty: "adds_up [] (Fin 0)"
| single: "adds_up [x] x"
| join: "adds_up xs a \<Longrightarrow> adds_up ys b \<Longrightarrow> adds_up (xs @ ys) (fadd a b)"
| reorder: "adds_up xs a \<Longrightarrow> mset xs = mset ys \<Longrightarrow> adds_up ys a"

definition sequential_sum :: "float64 list \<Rightarrow> float64" where
  "sequential_sum xs = foldl fadd (Fin 0) xs"

subsection \<open>Values of interest\<close>

text \<open>The special values: an infinity or NaN.\<close>

fun nonfinite :: "float64 \<Rightarrow> bool" where
  "nonfinite (Fin a) = False"
| "nonfinite x = True"

text \<open>The float64 that is an integer, and the integer a finite float64 lies on or above.\<close>

abbreviation fin :: "int \<Rightarrow> float64" where
  "fin k \<equiv> Fin (of_int k)"

abbreviation Ffin :: "int \<Rightarrow> scalar" where
  "Ffin k \<equiv> F (Fin (of_int k))"

definition int_value :: "float64 \<Rightarrow> int" where
  "int_value x = (case x of Fin a \<Rightarrow> \<lfloor>a\<rfloor> | _ \<Rightarrow> 0)"

definition integral :: "float64 \<Rightarrow> bool" where
  "integral x = (x = Fin (of_int (int_value x)))"

section \<open>Errors\<close>

text \<open>
  The exceptions the modelled code can raise: \<open>ValueError\<close> from NumPy (stacking an empty
  list, shapes that do not broadcast) and \<open>IndexError\<close> from indexing a list. The source
  defines no exception class of its own.
\<close>

datatype error = ValueError | IndexError

section \<open>The linear fit of zero-noise extrapolation\<close>

text \<open>
  An array is the list of its elements, all integers or all floats. \<open>math.stack\<close> of a
  list of scalars refuses an empty list; a list with a float in it becomes a float array.
\<close>

definition stacked :: "scalar list \<Rightarrow> scalar list" where
  "stacked xs = (if list_all is_int xs then xs else map (\<lambda>x. F (to_float x)) xs)"

definition stack :: "scalar list \<Rightarrow> error + scalar list" where
  "stack xs = (if xs = [] then Inl ValueError else Inr (stacked xs))"

text \<open>The sum of an array: an integer sum wraps around, a float sum is the framework's.\<close>

definition array_sum :: "(float64 list \<Rightarrow> float64) \<Rightarrow> scalar list \<Rightarrow> scalar" where
  "array_sum math_sum xs =
     (if list_all is_int xs then foldl sadd (I 0) xs else F (math_sum (map to_float xs)))"

text \<open>
  \<open>math.multiply\<close> of two one-dimensional arrays, with NumPy broadcasting: equal lengths
  multiply elementwise, an array of length one is stretched to the other's length, and
  any other pair of lengths is refused.
\<close>

definition multiply :: "scalar list \<Rightarrow> scalar list \<Rightarrow> error + scalar list" where
  "multiply xs ys =
     (if length xs = length ys then Inr (map2 smul xs ys)
      else if length xs = 1 then Inr (map (smul (hd xs)) ys)
      else if length ys = 1 then Inr (map (\<lambda>x. smul x (hd ys)) xs)
      else Inl ValueError)"

text \<open>
  The denominator of the slope, \<open>N * math.sum(scale_factors ** 2) - sum_scales ** 2\<close>, for
  \<open>N\<close> results; \<open>N\<close> is a Python \<open>int\<close>, and a square is taken to be the rounded product.
\<close>

definition denominator :: "(float64 list \<Rightarrow> float64) \<Rightarrow> nat \<Rightarrow> scalar list \<Rightarrow> scalar" where
  "denominator math_sum N scales =
     ssub (smul (I (int N)) (array_sum math_sum (map (\<lambda>s. smul s s) scales)))
          (smul (array_sum math_sum scales) (array_sum math_sum scales))"

text \<open>
  \<open>fit_zne(scale_factors, energies)\<close>; each energy is a scalar result, so the reshape to
  \<open>len(energies)\<close> keeps the stacked array.
\<close>

definition fit_zne ::
  "(float64 list \<Rightarrow> float64) \<Rightarrow> scalar list \<Rightarrow> scalar list \<Rightarrow> error + scalar" where
  "fit_zne math_sum scale_factors energies =
     (case stack scale_factors of
        Inl e \<Rightarrow> Inl e
      | Inr scales \<Rightarrow>
     (case stack energies of
        Inl e \<Rightarrow> Inl e
      | Inr unwrapped_energies \<Rightarrow>
          let N = I (int (length energies));
              sum_scales = array_sum math_sum scales;
              sum_energies = array_sum math_sum unwrapped_energies
          in (case multiply scales unwrapped_energies of
                Inl e \<Rightarrow> Inl e
              | Inr products \<Rightarrow>
                  let numerator = ssub (smul N (array_sum math_sum products))
                                       (smul sum_scales sum_energies);
                      slope = sdiv numerator (denominator math_sum (length energies) scales);
                      intercept = sdiv (ssub sum_energies (smul slope sum_scales)) N
                  in Inr intercept)))"

text \<open>
  The closed-form least-squares fit as the specification words it, over exact reals:
  \<open>slope = (N \<Sum>s\<^sub>ie\<^sub>i - \<Sum>s\<^sub>i \<Sum>e\<^sub>i) / (N \<Sum>s\<^sub>i\<^sup>2 - (\<Sum>s\<^sub>i)\<^sup>2)\<close> and
  \<open>intercept = (\<Sum>e\<^sub>i - slope \<Sum>s\<^sub>i) / N\<close>. It is what \<open>fit_zne\<close> is compared with.
\<close>

definition spec_slope :: "real list \<Rightarrow> real list \<Rightarrow> real" where
  "spec_slope ss es =
     (real (length es) * (\<Sum>(s, e)\<leftarrow>zip ss es. s * e) - sum_list ss * sum_list es) /
     (real (length es) * (\<Sum>s\<leftarrow>ss. s * s) - sum_list ss * sum_list ss)"

definition spec_intercept :: "real list \<Rightarrow> real list \<Rightarrow> real" where
  "spec_intercept ss es = (sum_list es - spec_slope ss es * sum_list ss) / real (length es)"

text \<open>The sum of squared residuals of the line \<open>e = m s + b\<close> on the data.\<close>

definition squared_error :: "real list \<Rightarrow> real list \<Rightarrow> real \<Rightarrow> real \<Rightarrow> real" where
  "squared_error ss es m b = (\<Sum>(s, e)\<leftarrow>zip ss es. (e - (m * s + b)) * (e - (m * s + b)))"

section \<open>Operation sequences\<close>

text \<open>
  An operation is a named gate on an ordered list of wires with numeric parameters; a
  measurement is an observable with a return type. A tape is the operations followed by
  the measurements. Operations and measurements are immutable values here.
\<close>

record operation =
  name :: string
  wires :: "nat list"
  data :: "real list"

datatype return_type = Expectation | Probability | Sample

record measurement =
  return_type :: return_type
  obs :: string
  obs_wires :: "nat list"

record tape =
  operations :: "operation list"
  measurements :: "measurement list"

text \<open>The gate constructors the transforms call.\<close>

definition Hadamard :: "nat \<Rightarrow> operation" where
  "Hadamard w = \<lparr>name = ''Hadamard'', wires = [w], data = []\<rparr>"

definition CZ :: "nat list \<Rightarrow> operation" where
  "CZ ws = \<lparr>name = ''CZ'', wires = ws, data = []\<rparr>"

definition CNOT :: "nat list \<Rightarrow> operation" where
  "CNOT ws = \<lparr>name = ''CNOT'', wires = ws, data = []\<rparr>"

definition RX :: "real \<Rightarrow> nat \<Rightarrow> operation" where
  "RX phi w = \<lparr>name = ''RX'', wires = [w], data = [phi]\<rparr>"

subsection \<open>The recording context\<close>

text \<open>
  A transform runs inside a fresh recording context: every gate it constructs and every
  object it passes to \<open>qml.apply\<close> is appended to the context's queue, and the new tape is
  read off the queue, operations and measurements apart. Iterating over a tape
  (\<open>for op in tape\<close>) visits its operations and then its measurements.
\<close>

datatype item = Op operation | Meas measurement

type_synonym queue = "item list"

definition qml_apply :: "item \<Rightarrow> queue \<Rightarrow> queue" where
  "qml_apply x q = q @ [x]"

fun queued_operations :: "queue \<Rightarrow> operation list" where
  "queued_operations [] = []"
| "queued_operations (Op op # q) = op # queued_operations q"
| "queued_operations (Meas m # q) = queued_operations q"

fun queued_measurements :: "queue \<Rightarrow> measurement list" where
  "queued_measurements [] = []"
| "queued_measurements (Op op # q) = queued_measurements q"
| "queued_measurements (Meas m # q) = m # queued_measurements q"

definition tape_of_queue :: "queue \<Rightarrow> tape" where
  "tape_of_queue q = \<lparr>operations = queued_operations q, measurements = queued_measurements q\<rparr>"

definition circuit :: "tape \<Rightarrow> item list" where
  "circuit t = map Op (operations t) @ map Meas (measurements t)"

subsection \<open>Raising inside a loop\<close>

definition bind_err :: "error + 'a \<Rightarrow> ('a \<Rightarrow> error + 'b) \<Rightarrow> error + 'b" where
  "bind_err r f = (case r of Inl e \<Rightarrow> Inl e | Inr x \<Rightarrow> f x)"

text \<open>A \<open>for\<close> loop whose body may raise: the first exception ends the loop.\<close>

fun for_each :: "('a \<Rightarrow> 's \<Rightarrow> error + 's) \<Rightarrow> 'a list \<Rightarrow> 's \<Rightarrow> error + 's" where
  "for_each body [] s = Inr s"
| "for_each body (x # xs) s = bind_err (body x s) (for_each body xs)"

text \<open>\<open>xs[i]\<close> for a non-negative constant \<open>i\<close>: out of range raises \<open>IndexError\<close>.\<close>

definition index :: "'a list \<Rightarrow> nat \<Rightarrow> error + 'a" where
  "index xs i = (if i < length xs then Inr (xs ! i) else Inl IndexError)"

section \<open>Single-tape transforms\<close>

subsection \<open>\<open>convert_cnots\<close>\<close>

text \<open>
  A CNOT becomes Hadamard, CZ, Hadamard; anything else is applied as it is. A measurement
  is no gate, so the comparison of its name with \<open>'CNOT'\<close> fails and it is applied too.
\<close>

fun convert_cnots_body :: "item \<Rightarrow> queue \<Rightarrow> error + queue" where
  "convert_cnots_body (Op op) q =
     (if name op = ''CNOT'' then
        bind_err (index (wires op) 1) (\<lambda>w1.
        bind_err (index (wires op) 0) (\<lambda>w0.
          Inr (qml_apply (Op (Hadamard w1))
                (qml_apply (Op (CZ [w0, w1]))
                  (qml_apply (Op (Hadamard w1)) q)))))
      else Inr (qml_apply (Op op) q))"
| "convert_cnots_body (Meas m) q = Inr (qml_apply (Meas m) q)"

definition convert_cnots :: "tape \<Rightarrow> error + tape" where
  "convert_cnots t =
     bind_err (for_each convert_cnots_body (circuit t) []) (\<lambda>q. Inr (tape_of_queue q))"

subsection \<open>\<open>overrotate_rx\<close>\<close>

text \<open>
  An RX gate is replaced by an RX gate with \<open>epsilon\<close> added to its angle; anything else,
  a measurement included, is applied as it is.
\<close>

fun overrotate_rx_body :: "real \<Rightarrow> item \<Rightarrow> queue \<Rightarrow> error + queue" where
  "overrotate_rx_body epsilon (Op op) q =
     (if name op = ''RX'' then
        bind_err (index (data op) 0) (\<lambda>phi.
        bind_err (index (wires op) 0) (\<lambda>w.
          Inr (qml_apply (Op (RX (phi + epsilon) w)) q)))
      else Inr (qml_apply (Op op) q))"
| "overrotate_rx_body epsilon (Meas m) q = Inr (qml_apply (Meas m) q)"

definition overrotate_rx :: "tape \<Rightarrow> real \<Rightarrow> error + tape" where
  "overrotate_rx t epsilon =
     bind_err (for_each (overrotate_rx_body epsilon) (circuit t) [])
       (\<lambda>q. Inr (tape_of_queue q))"

subsection \<open>\<open>unitary_folding\<close>\<close>

definition num_folds :: "real \<Rightarrow> int" where
  "num_folds scale_factor = math_round ((scale_factor - 1) / 2)"

text \<open>
  One pass of the folding loop: the adjoint of every operation in reverse order (the
  adjoint is constructed, hence queued), then the operations again. The adjoint of an
  operation is the framework's and is a parameter here.
\<close>

definition fold_once :: "(operation \<Rightarrow> operation) \<Rightarrow> tape \<Rightarrow> queue \<Rightarrow> queue" where
  "fold_once adjoint t q =
     fold (\<lambda>op. qml_apply (Op op)) (operations t)
       (fold (\<lambda>op. qml_apply (Op (adjoint op))) (rev (operations t)) q)"

text \<open>\<open>range(int(num_folds))\<close> is empty for a count that is not positive.\<close>

definition unitary_folding :: "(operation \<Rightarrow> operation) \<Rightarrow> tape \<Rightarrow> real \<Rightarrow> tape" where
  "unitary_folding adjoint t scale_factor =
     (let q1 = fold (\<lambda>op. qml_apply (Op op)) (operations t) [];
          q2 = (fold_once adjoint t ^^ nat (num_folds scale_factor)) q1;
          q3 = fold (\<lambda>m. qml_apply (Meas m)) (measurements t) q2
      in tape_of_queue q3)"

section \<open>The batch transform \<open>zne\<close>\<close>



section \<open>Objects and references\<close>

text \<open>
  Python names objects by reference: a tape holds references to its operation and
  measurement objects, and \<open>qml.apply\<close> queues the object it is given, so that the tape a
  transform returns shares objects with its input. Where mutation matters, the objects
  live in a heap, a list addressed by position; creating an object appends it, and
  assigning to a field of an object replaces the object at its position.
\<close>

type_synonym ref = nat

datatype obj = Item item | TapeObj "ref list" "ref list"

type_synonym heap = "obj list"

fun is_operation :: "obj \<Rightarrow> bool" where
  "is_operation (Item (Op op)) = True"
| "is_operation (Item (Meas m)) = False"
| "is_operation (TapeObj ops ms) = False"

fun is_measurement :: "obj \<Rightarrow> bool" where
  "is_measurement (Item (Op op)) = False"
| "is_measurement (Item (Meas m)) = True"
| "is_measurement (TapeObj ops ms) = False"

text \<open>\<open>tape.operations\<close> and \<open>tape.measurements\<close>: the references a tape object holds.\<close>

definition operations_of :: "heap \<Rightarrow> ref \<Rightarrow> ref list" where
  "operations_of h t = (case h ! t of TapeObj ops ms \<Rightarrow> ops | Item x \<Rightarrow> [])"

definition measurements_of :: "heap \<Rightarrow> ref \<Rightarrow> ref list" where
  "measurements_of h t = (case h ! t of TapeObj ops ms \<Rightarrow> ms | Item x \<Rightarrow> [])"

subsection \<open>The recording context, with references\<close>

text \<open>
  The state of a transform under way is the heap together with the queue of the active
  recording context, which holds references. Constructing a gate inside the context
  creates the object and queues it. \<open>qml.apply\<close> queues the object it is given; when the
  object is in the queue already, the framework queues a copy of it.
\<close>

type_synonym recording = "heap \<times> ref list"

definition construct :: "item \<Rightarrow> recording \<Rightarrow> recording" where
  "construct x c = (fst c @ [Item x], snd c @ [length (fst c)])"

definition qml_apply_ref :: "ref \<Rightarrow> recording \<Rightarrow> recording" where
  "qml_apply_ref r c =
     (if r \<in> set (snd c) then (fst c @ [fst c ! r], snd c @ [length (fst c)])
      else (fst c, snd c @ [r]))"

text \<open>A \<open>for\<close> loop over references whose body may raise; the heap is kept in either case.\<close>

fun for_each_ref ::
  "(ref \<Rightarrow> recording \<Rightarrow> error + recording) \<Rightarrow> ref list \<Rightarrow> recording \<Rightarrow> error option \<times> recording" where
  "for_each_ref body [] c = (None, c)"
| "for_each_ref body (r # rs) c =
     (case body r c of Inl e \<Rightarrow> (Some e, c) | Inr c' \<Rightarrow> for_each_ref body rs c')"

text \<open>
  The decorator \<open>single_tape_transform\<close>: \<open>with tape_class() as new_tape\<close> creates the new
  tape object and opens a fresh queue, the transform function runs on the input tape,
  and on leaving the context the new tape is given the queued operations and
  measurements. An exception of the transform function is raised to the caller.
\<close>

definition single_tape_transform ::
  "(ref \<Rightarrow> recording \<Rightarrow> error option \<times> recording) \<Rightarrow> ref \<Rightarrow> heap \<Rightarrow> (error + ref) \<times> heap" where
  "single_tape_transform transform_fn tape h =
     (let new_tape = length h;
          (raised, c) = transform_fn tape (h @ [TapeObj [] []], [])
      in case raised of
           Some e \<Rightarrow> (Inl e, fst c)
         | None \<Rightarrow>
             (Inr new_tape,
              (fst c)[new_tape :=
                 TapeObj (filter (\<lambda>r. is_operation (fst c ! r)) (snd c))
                         (filter (\<lambda>r. is_measurement (fst c ! r)) (snd c))]))"

subsection \<open>The transforms on the heap\<close>

text \<open>
  The transform functions again, statement by statement, now on references.
  \<open>for op in tape\<close> reads the operations and then the measurements of the tape object.
\<close>

definition convert_cnots_step :: "ref \<Rightarrow> recording \<Rightarrow> error + recording" where
  "convert_cnots_step r c =
     (case fst c ! r of
        Item (Op op) \<Rightarrow>
          if name op = ''CNOT'' then
            bind_err (index (wires op) 1) (\<lambda>w1.
            bind_err (index (wires op) 0) (\<lambda>w0.
              Inr (construct (Op (Hadamard w1))
                    (construct (Op (CZ [w0, w1]))
                      (construct (Op (Hadamard w1)) c)))))
          else Inr (qml_apply_ref r c)
      | _ \<Rightarrow> Inr (qml_apply_ref r c))"

definition convert_cnots_fn :: "ref \<Rightarrow> recording \<Rightarrow> error option \<times> recording" where
  "convert_cnots_fn tape c =
     for_each_ref convert_cnots_step
       (operations_of (fst c) tape @ measurements_of (fst c) tape) c"

definition convert_cnots_heap :: "ref \<Rightarrow> heap \<Rightarrow> (error + ref) \<times> heap" where
  "convert_cnots_heap = single_tape_transform convert_cnots_fn"

definition overrotate_rx_step :: "real \<Rightarrow> ref \<Rightarrow> recording \<Rightarrow> error + recording" where
  "overrotate_rx_step epsilon r c =
     (case fst c ! r of
        Item (Op op) \<Rightarrow>
          if name op = ''RX'' then
            bind_err (index (data op) 0) (\<lambda>phi.
            bind_err (index (wires op) 0) (\<lambda>w.
              Inr (construct (Op (RX (phi + epsilon) w)) c)))
          else Inr (qml_apply_ref r c)
      | _ \<Rightarrow> Inr (qml_apply_ref r c))"

definition overrotate_rx_fn :: "real \<Rightarrow> ref \<Rightarrow> recording \<Rightarrow> error option \<times> recording" where
  "overrotate_rx_fn epsilon tape c =
     for_each_ref (overrotate_rx_step epsilon)
       (operations_of (fst c) tape @ measurements_of (fst c) tape) c"

definition overrotate_rx_heap :: "ref \<Rightarrow> real \<Rightarrow> heap \<Rightarrow> (error + ref) \<times> heap" where
  "overrotate_rx_heap tape epsilon = single_tape_transform (overrotate_rx_fn epsilon) tape"

text \<open>
  \<open>op.adjoint()\<close> constructs the adjoint of the operation at the reference;
  \<open>tape.operations\<close> holds operations only.
\<close>

definition adjoint_ref :: "(operation \<Rightarrow> operation) \<Rightarrow> ref \<Rightarrow> recording \<Rightarrow> recording" where
  "adjoint_ref adjoint r c =
     (case fst c ! r of Item (Op op) \<Rightarrow> construct (Op (adjoint op)) c | _ \<Rightarrow> c)"

definition fold_once_ref :: "(operation \<Rightarrow> operation) \<Rightarrow> ref \<Rightarrow> recording \<Rightarrow> recording" where
  "fold_once_ref adjoint tape c =
     (let c' = fold (adjoint_ref adjoint) (rev (operations_of (fst c) tape)) c
      in fold qml_apply_ref (operations_of (fst c') tape) c')"

definition unitary_folding_fn ::
  "(operation \<Rightarrow> operation) \<Rightarrow> real \<Rightarrow> ref \<Rightarrow> recording \<Rightarrow> error option \<times> recording" where
  "unitary_folding_fn adjoint scale_factor tape c =
     (let c1 = fold qml_apply_ref (operations_of (fst c) tape) c;
          c2 = (fold_once_ref adjoint tape ^^ nat (num_folds scale_factor)) c1;
          c3 = fold qml_apply_ref (measurements_of (fst c2) tape) c2
      in (None, c3))"

definition unitary_folding_heap ::
  "(operation \<Rightarrow> operation) \<Rightarrow> ref \<Rightarrow> real \<Rightarrow> heap \<Rightarrow> (error + ref) \<times> heap" where
  "unitary_folding_heap adjoint tape scale_factor =
     single_tape_transform (unitary_folding_fn adjoint scale_factor) tape"

text \<open>The list comprehension of \<open>zne\<close>, the heap passed from one call to the next.\<close>

fun map_refs ::
  "('a \<Rightarrow> heap \<Rightarrow> (error + ref) \<times> heap) \<Rightarrow> 'a list \<Rightarrow> heap \<Rightarrow> (error + ref list) \<times> heap" where
  "map_refs f [] h = (Inr [], h)"
| "map_refs f (x # xs) h =
     (case f x h of
        (Inl e, h') \<Rightarrow> (Inl e, h')
      | (Inr r, h') \<Rightarrow>
          (case map_refs f xs h' of
             (Inl e, h'') \<Rightarrow> (Inl e, h'')
           | (Inr rs, h'') \<Rightarrow> (Inr (r # rs), h'')))"

definition zne_heap ::
  "(float64 list \<Rightarrow> float64) \<Rightarrow> ref \<Rightarrow> (ref \<Rightarrow> real \<Rightarrow> heap \<Rightarrow> (error + ref) \<times> heap) \<Rightarrow>
     real list \<Rightarrow> heap \<Rightarrow> (error + ref list \<times> (scalar list \<Rightarrow> error + scalar)) \<times> heap" where
  "zne_heap math_sum tape mitigation_transform scale_factors h =
     (case map_refs (\<lambda>scale. mitigation_transform tape scale) scale_factors h of
        (Inl e, h') \<Rightarrow> (Inl e, h')
      | (Inr tapes, h') \<Rightarrow>
          (Inr (tapes, fit_zne math_sum (map (\<lambda>s. F (Fin s)) scale_factors)), h'))"

subsection \<open>Reading a tape off the heap\<close>

text \<open>The tape a reference stands for: the values of the objects its tape object names.\<close>

fun items :: "obj list \<Rightarrow> item list" where
  "items [] = []"
| "items (Item x # os) = x # items os"
| "items (TapeObj ops ms # os) = items os"

definition deref :: "heap \<Rightarrow> ref list \<Rightarrow> item list" where
  "deref h rs = items (map (\<lambda>r. h ! r) rs)"

definition tape_value :: "heap \<Rightarrow> ref \<Rightarrow> tape" where
  "tape_value h t =
     \<lparr>operations = queued_operations (deref h (operations_of h t)),
      measurements = queued_measurements (deref h (measurements_of h t))\<rparr>"

text \<open>
  A reference to a tape of the heap: a tape object whose operations are operation objects
  of the heap and whose measurements are measurement objects of the heap.
\<close>

definition valid_tape :: "heap \<Rightarrow> ref \<Rightarrow> bool" where
  "valid_tape h t =
     (t < length h \<and>
      (case h ! t of
         TapeObj ops ms \<Rightarrow>
           list_all (\<lambda>r. r < length h \<and> is_operation (h ! r)) ops \<and>
           list_all (\<lambda>r. r < length h \<and> is_measurement (h ! r)) ms
       | Item x \<Rightarrow> False))"

subsection \<open>Heaps compared\<close>

text \<open>
  A heap extends another when every object of the other is still at its position,
  unchanged. A reference names an item when the object there holds it. A recording on the
  heap simulates a queue of values when it extends the heap the transform started from
  and its queued references name, in order, the items of the queue.
\<close>

definition extends :: "heap \<Rightarrow> heap \<Rightarrow> bool" where
  "extends h h' = (take (length h) h' = h)"

fun is_item :: "obj \<Rightarrow> bool" where
  "is_item (Item x) = True"
| "is_item (TapeObj ops ms) = False"

definition names :: "heap \<Rightarrow> ref \<Rightarrow> item \<Rightarrow> bool" where
  "names h r x = (r < length h \<and> h ! r = Item x)"

definition sim :: "heap \<Rightarrow> recording \<Rightarrow> queue \<Rightarrow> bool" where
  "sim h c q =
     (extends h (fst c) \<and> (\<forall>r\<in>set (snd c). r < length (fst c) \<and> is_item (fst c ! r)) \<and>
      deref (fst c) (snd c) = q)"

subsection \<open>The Qiskit pass \<open>OverrotateRX\<close>\<close>

text \<open>
  A circuit graph is read through \<open>dag.op_nodes()\<close>, its operation nodes in order; a node
  has a name and the parameter list of its operation. \<open>run\<close> adds the angle to the first
  parameter of every \<open>rx\<close> node in place and returns the graph it was given.
\<close>

record op_node =
  node_name :: string
  params :: "real list"

text \<open>
  The loop over the nodes: \<open>visited\<close> are the nodes already visited. An exception leaves the
  nodes visited so far updated.
\<close>

fun run_nodes :: "real \<Rightarrow> op_node list \<Rightarrow> op_node list \<Rightarrow> error option \<times> op_node list" where
  "run_nodes angle visited [] = (None, visited)"
| "run_nodes angle visited (node # nodes) =
     (if node_name node = ''rx'' then
        (case params node of
           [] \<Rightarrow> (Some IndexError, visited @ node # nodes)
         | p # ps \<Rightarrow> run_nodes angle (visited @ [node\<lparr>params := (p + angle) # ps\<rparr>]) nodes)
      else run_nodes angle (visited @ [node]) nodes)"

definition OverrotateRX_run ::
  "real \<Rightarrow> ref \<Rightarrow> op_node list list \<Rightarrow> (error + ref) \<times> op_node list list" where
  "OverrotateRX_run angle dag store =
     (case run_nodes angle [] (store ! dag) of
        (None, nodes) \<Rightarrow> (Inr dag, store[dag := nodes])
      | (Some e, nodes) \<Rightarrow> (Inl e, store[dag := nodes]))"

section \<open>Pipelines\<close>

text \<open>
  Modelled from the spec: the pipeline driver. The notebook only builds the list
  \<open>pipeline\<close> and hands it to the framework's \<open>compile\<close> decorator, which is not in the
  sources. The specification has the transforms applied strictly in sequence, the output
  of one feeding the next, and a failed transform failing the whole invocation.
\<close>

fun pipeline :: "('s \<Rightarrow> error + 's) list \<Rightarrow> 's \<Rightarrow> error + 's" where
  "pipeline [] seq = Inr seq"
| "pipeline (t # ts) seq = bind_err (t seq) (pipeline ts)"

section \<open>Example values\<close>

text \<open>The tape of the first notebook, and a tape with neither a CNOT nor an RX.\<close>

definition example_tape :: tape where
  "example_tape =
     \<lparr>operations = [CNOT [0, 1], RX (1 / 10) 0, CNOT [1, 2]],
      measurements = [\<lparr>return_type = Expectation, obs = ''PauliZ @ PauliZ'', obs_wires = [0, 1]\<rparr>]\<rparr>"

definition plain_tape :: tape where
  "plain_tape =
     \<lparr>operations = [Hadamard 0, \<lparr>name = ''RY'', wires = [0], data = [1 / 10]\<rparr>],
      measurements = [\<lparr>return_type = Expectation, obs = ''PauliZ'', obs_wires = [0]\<rparr>]\<rparr>"

text \<open>The tape of the first notebook as objects: three gates, a measurement, the tape.\<close>

definition example_heap :: heap where
  "example_heap =
     [Item (Op (CNOT [0, 1])), Item (Op (RX (1 / 10) 0)), Item (Op (CNOT [1, 2])),
      Item (Meas \<lparr>return_type = Expectation, obs = ''PauliZ @ PauliZ'', obs_wires = [0, 1]\<rparr>),
      TapeObj [0, 1, 2] [3]]"

section \<open>Properties of the transforms\<close>

subsection \<open>What a transform queues\<close>

lemma queued_operations_append:
  "queued_operations (a @ b) = queued_operations a @ queued_operations b"
  by (induction a rule: queued_operations.induct) simp_all

lemma queued_measurements_append:
  "queued_measurements (a @ b) = queued_measurements a @ queued_measurements b"
  by (induction a rule: queued_measurements.induct) simp_all

lemma queued_operations_Op: "queued_operations (map (\<lambda>op. Op (f op)) ops) = map f ops"
  by (induction ops) simp_all

lemma queued_measurements_Op: "queued_measurements (map (\<lambda>op. Op (f op)) ops) = []"
  by (induction ops) simp_all

lemma queued_operations_Meas: "queued_operations (map Meas ms) = []"
  by (induction ms) simp_all

lemma queued_measurements_Meas: "queued_measurements (map Meas ms) = ms"
  by (induction ms) simp_all

lemma fold_qml_apply: "fold (\<lambda>x. qml_apply (f x)) xs q = q @ map f xs"
  by (induction xs arbitrary: q) (simp_all add: qml_apply_def)

lemma fold_once_eq:
  "fold_once adjoint t q = q @ map Op (map adjoint (rev (operations t)) @ operations t)"
  by (simp add: fold_once_def fold_qml_apply)

lemma concat_replicate_snoc: "concat (replicate k x) @ x = x @ concat (replicate k x)"
  by (induction k) simp_all

lemma funpow_append:
  assumes "\<And>q. f q = q @ x"
  shows "(f ^^ k) q = q @ concat (replicate k x)"
  by (induction k) (simp_all add: assms concat_replicate_snoc)

lemma funpow_fold_once:
  "(fold_once adjoint t ^^ k) q =
     q @ map Op (concat (replicate k (map adjoint (rev (operations t)) @ operations t)))"
  using funpow_append [of "fold_once adjoint t", OF fold_once_eq, of k q]
  by (simp add: map_concat)

lemma unitary_folding_eq:
  "unitary_folding adjoint t scale_factor =
     \<lparr>operations = operations t @
        concat (replicate (nat (num_folds scale_factor))
          (map adjoint (rev (operations t)) @ operations t)),
      measurements = measurements t\<rparr>"
  using queued_operations_Op [of "\<lambda>x. x"] queued_measurements_Op [of "\<lambda>x. x"]
  by (simp add: unitary_folding_def fold_qml_apply funpow_fold_once tape_of_queue_def
      queued_operations_append queued_measurements_append
      queued_operations_Meas queued_measurements_Meas)

subsection \<open>Unitary folding\<close>

lemma num_folds_3: "num_folds 3 = 1"
  by (simp add: num_folds_def math_round_def)

text \<open>
  Claim C3. Folding \<open>[RX(0.3), CNOT]\<close> with scale factor 3 makes
  \<open>round((3 - 1) / 2) = 1\<close> fold: the operations, then their adjoints in reverse order, then
  the operations again, followed by the measurements of the input. This holds whatever the
  framework's adjoint is and for every list of measurements.
\<close>

theorem unitary_folding_scenario:
  "num_folds 3 = 1 \<and>
   unitary_folding adjoint \<lparr>operations = [RX (3 / 10) 0, CNOT [0, 1]], measurements = ms\<rparr> 3 =
     \<lparr>operations = [RX (3 / 10) 0, CNOT [0, 1], adjoint (CNOT [0, 1]), adjoint (RX (3 / 10) 0),
                    RX (3 / 10) 0, CNOT [0, 1]],
      measurements = ms\<rparr>"
  by (simp add: unitary_folding_eq num_folds_3)

subsection \<open>Measurements and pass-through\<close>

lemma queued_operations_circuit: "queued_operations (circuit t) = operations t"
  using queued_operations_Op [of "\<lambda>x. x"]
  by (simp add: circuit_def queued_operations_append queued_operations_Meas)

lemma queued_measurements_circuit: "queued_measurements (circuit t) = measurements t"
  using queued_measurements_Op [of "\<lambda>x. x"]
  by (simp add: circuit_def queued_measurements_append queued_measurements_Meas)

lemma tape_of_queue_circuit: "tape_of_queue (circuit t) = t"
  by (simp add: tape_of_queue_def queued_operations_circuit queued_measurements_circuit)

lemma convert_cnots_body_measurements:
  "convert_cnots_body x q = Inr q' \<Longrightarrow>
   queued_measurements q' = queued_measurements q @ queued_measurements [x]"
  by (cases x)
     (auto simp: bind_err_def qml_apply_def queued_measurements_append
           split: if_splits sum.splits)

lemma for_each_convert_cnots_measurements:
  "for_each convert_cnots_body xs q = Inr q' \<Longrightarrow>
   queued_measurements q' = queued_measurements q @ queued_measurements xs"
proof (induction xs arbitrary: q)
  case Nil
  then show ?case by simp
next
  case (Cons x xs)
  from Cons.prems obtain q1 where
    step: "convert_cnots_body x q = Inr q1" and rest: "for_each convert_cnots_body xs q1 = Inr q'"
    by (auto simp: bind_err_def split: sum.splits)
  have "queued_measurements (x # xs) = queued_measurements [x] @ queued_measurements xs"
    using queued_measurements_append [of "[x]" xs] by simp
  then show ?case
    using Cons.IH [OF rest] convert_cnots_body_measurements [OF step] by simp
qed

text \<open>When every CNOT acts on at least two wires, no index is out of range.\<close>

lemma for_each_convert_cnots_total:
  assumes "\<forall>op. Op op \<in> set xs \<longrightarrow> name op = ''CNOT'' \<longrightarrow> 2 \<le> length (wires op)"
  shows "\<exists>q'. for_each convert_cnots_body xs q = Inr q'"
  using assms
proof (induction xs arbitrary: q)
  case Nil
  then show ?case by simp
next
  case (Cons x xs)
  have "\<exists>q1. convert_cnots_body x q = Inr q1"
  proof (cases x)
    case (Op op)
    then show ?thesis using Cons.prems by (auto simp: bind_err_def index_def)
  next
    case (Meas m)
    then show ?thesis by simp
  qed
  then obtain q1 where "convert_cnots_body x q = Inr q1" ..
  moreover have "\<exists>q'. for_each convert_cnots_body xs q1 = Inr q'"
    using Cons.IH Cons.prems by simp
  ultimately show ?case by (simp add: bind_err_def)
qed

lemma Op_in_circuit: "Op op \<in> set (circuit t) \<longleftrightarrow> op \<in> set (operations t)"
  by (auto simp: circuit_def)

text \<open>
  Claim C5. The measurements of the output of \<open>unitary_folding\<close> (for any scale factor) and
  of \<open>convert_cnots\<close> are the measurements of the input, in the same order.
  \<open>convert_cnots\<close> returns a tape whenever every CNOT of the input acts on at least two
  wires, as every CNOT gate does.
\<close>

theorem measurements_preserved:
  "measurements (unitary_folding adjoint t scale_factor) = measurements t \<and>
   (\<forall>t'. convert_cnots t = Inr t' \<longrightarrow> measurements t' = measurements t) \<and>
   ((\<forall>op\<in>set (operations t). name op = ''CNOT'' \<longrightarrow> 2 \<le> length (wires op)) \<longrightarrow>
      (\<exists>t'. convert_cnots t = Inr t'))"
proof (intro conjI allI impI)
  show "measurements (unitary_folding adjoint t scale_factor) = measurements t"
    by (simp add: unitary_folding_eq)
next
  fix t'
  assume "convert_cnots t = Inr t'"
  then obtain q where q: "for_each convert_cnots_body (circuit t) [] = Inr q"
    and t': "t' = tape_of_queue q"
    by (auto simp: convert_cnots_def bind_err_def split: sum.splits)
  from for_each_convert_cnots_measurements [OF q] show "measurements t' = measurements t"
    by (simp add: t' tape_of_queue_def queued_measurements_circuit)
next
  assume "\<forall>op\<in>set (operations t). name op = ''CNOT'' \<longrightarrow> 2 \<le> length (wires op)"
  then have "\<forall>op. Op op \<in> set (circuit t) \<longrightarrow> name op = ''CNOT'' \<longrightarrow> 2 \<le> length (wires op)"
    by (simp add: Op_in_circuit)
  from for_each_convert_cnots_total [OF this, of "[]"]
  show "\<exists>t'. convert_cnots t = Inr t'"
    by (auto simp: convert_cnots_def bind_err_def)
qed

lemma convert_cnots_example:
  "convert_cnots example_tape =
     Inr \<lparr>operations = [Hadamard 1, CZ [0, 1], Hadamard 1, RX (1 / 10) 0,
                        Hadamard 2, CZ [1, 2], Hadamard 2],
          measurements = measurements example_tape\<rparr>"
  by (simp add: convert_cnots_def example_tape_def circuit_def bind_err_def index_def
      qml_apply_def tape_of_queue_def CNOT_def RX_def)

theorem measurements_preserved_witness:
  "\<exists>t'. convert_cnots example_tape = Inr t' \<and> measurements t' = measurements example_tape"
proof -
  have wf: "\<forall>op\<in>set (operations example_tape). name op = ''CNOT'' \<longrightarrow> 2 \<le> length (wires op)"
    by (simp add: example_tape_def CNOT_def RX_def)
  note pres = measurements_preserved [of "\<lambda>op. op" example_tape 1]
  from pres wf obtain t' where t': "convert_cnots example_tape = Inr t'" by blast
  with pres have "measurements t' = measurements example_tape" by blast
  with t' show ?thesis by blast
qed

lemma for_each_convert_cnots_passthrough:
  assumes "\<forall>op. Op op \<in> set xs \<longrightarrow> name op \<noteq> ''CNOT''"
  shows "for_each convert_cnots_body xs q = Inr (q @ xs)"
  using assms
proof (induction xs arbitrary: q)
  case Nil
  then show ?case by simp
next
  case (Cons x xs)
  have "convert_cnots_body x q = Inr (q @ [x])"
    using Cons.prems by (cases x) (simp_all add: qml_apply_def)
  moreover have "for_each convert_cnots_body xs (q @ [x]) = Inr ((q @ [x]) @ xs)"
    using Cons.IH Cons.prems by simp
  ultimately show ?case by (simp add: bind_err_def)
qed

lemma for_each_overrotate_rx_passthrough:
  assumes "\<forall>op. Op op \<in> set xs \<longrightarrow> name op \<noteq> ''RX''"
  shows "for_each (overrotate_rx_body epsilon) xs q = Inr (q @ xs)"
  using assms
proof (induction xs arbitrary: q)
  case Nil
  then show ?case by simp
next
  case (Cons x xs)
  have "overrotate_rx_body epsilon x q = Inr (q @ [x])"
    using Cons.prems by (cases x) (simp_all add: qml_apply_def)
  moreover have "for_each (overrotate_rx_body epsilon) xs (q @ [x]) = Inr ((q @ [x]) @ xs)"
    using Cons.IH Cons.prems by simp
  ultimately show ?case by (simp add: bind_err_def)
qed

text \<open>
  Claim C6. A tape with no operation named \<open>CNOT\<close> is returned by \<open>convert_cnots\<close> as it is,
  and a tape with no operation named \<open>RX\<close> is returned by \<open>overrotate_rx\<close> as it is,
  operation for operation and measurement for measurement.
\<close>

theorem passthrough:
  "((\<forall>op\<in>set (operations t). name op \<noteq> ''CNOT'') \<longrightarrow> convert_cnots t = Inr t) \<and>
   ((\<forall>op\<in>set (operations t). name op \<noteq> ''RX'') \<longrightarrow> overrotate_rx t epsilon = Inr t)"
proof (intro conjI impI)
  assume "\<forall>op\<in>set (operations t). name op \<noteq> ''CNOT''"
  then have "\<forall>op. Op op \<in> set (circuit t) \<longrightarrow> name op \<noteq> ''CNOT''"
    by (simp add: Op_in_circuit)
  from for_each_convert_cnots_passthrough [OF this, of "[]"]
  show "convert_cnots t = Inr t"
    by (simp add: convert_cnots_def bind_err_def tape_of_queue_circuit)
next
  assume "\<forall>op\<in>set (operations t). name op \<noteq> ''RX''"
  then have "\<forall>op. Op op \<in> set (circuit t) \<longrightarrow> name op \<noteq> ''RX''"
    by (simp add: Op_in_circuit)
  from for_each_overrotate_rx_passthrough [OF this, of epsilon "[]"]
  show "overrotate_rx t epsilon = Inr t"
    by (simp add: overrotate_rx_def bind_err_def tape_of_queue_circuit)
qed

theorem passthrough_witness:
  "convert_cnots plain_tape = Inr plain_tape \<and> overrotate_rx plain_tape (1 / 5) = Inr plain_tape"
proof -
  have a: "\<forall>op\<in>set (operations plain_tape). name op \<noteq> ''CNOT''"
    by (simp add: plain_tape_def Hadamard_def)
  have b: "\<forall>op\<in>set (operations plain_tape). name op \<noteq> ''RX''"
    by (simp add: plain_tape_def Hadamard_def)
  from passthrough [of plain_tape "1 / 5"] a b show ?thesis by blast
qed

text \<open>
  Claim C9. When \<open>round((s - 1) / 2)\<close> is not positive (as for \<open>s = 1\<close>), \<open>unitary_folding\<close>
  makes no fold and returns a tape equal to its input; and two scale factors with the same
  rounded fold count give the same output.
\<close>

theorem folding_depends_on_num_folds:
  "(num_folds scale_factor \<le> 0 \<longrightarrow>
      nat (num_folds scale_factor) = 0 \<and> unitary_folding adjoint t scale_factor = t) \<and>
   unitary_folding adjoint t 1 = t \<and>
   (num_folds scale_factor = num_folds scale_factor' \<longrightarrow>
      unitary_folding adjoint t scale_factor = unitary_folding adjoint t scale_factor')"
  by (simp add: unitary_folding_eq num_folds_def math_round_def)

lemma num_folds_values: "num_folds 2 = 0" "num_folds (3 / 2) = 0" "num_folds (- 4) = - 2"
  by (simp_all add: num_folds_def math_round_def)

theorem folding_depends_on_num_folds_witness:
  "num_folds 2 \<le> 0 \<and> num_folds 2 = num_folds (3 / 2) \<and>
   unitary_folding (\<lambda>op. op) example_tape 2 = example_tape \<and>
   unitary_folding (\<lambda>op. op) example_tape 2 = unitary_folding (\<lambda>op. op) example_tape (3 / 2)"
proof -
  have a: "num_folds 2 \<le> 0" and b: "num_folds 2 = num_folds (3 / 2)"
    by (simp_all add: num_folds_values)
  from folding_depends_on_num_folds [of 2 "\<lambda>op. op" example_tape "3 / 2"] a b
  show ?thesis by blast
qed

subsection \<open>Pipelines\<close>

lemma pipeline_snoc: "pipeline (ts @ [t]) seq = bind_err (pipeline ts seq) t"
  by (induction ts arbitrary: seq) (simp_all add: bind_err_def split: sum.splits)

lemma pipeline_pure:
  "pipeline (map (\<lambda>f s. Inr (f s)) fs) seq = Inr (foldl (\<lambda>s f. f s) seq fs)"
  by (induction fs arbitrary: seq) (simp_all add: bind_err_def)

text \<open>
  Claim C7. The pipeline \<open>[t1, t2]\<close> applied to a sequence is \<open>t2\<close> applied to the result of
  \<open>t1\<close>, and a pipeline \<open>[t1, ..., tk]\<close> is \<open>tk (... t2 (t1 sequence) ...)\<close>: for transforms
  that may raise, the first exception is the result; for transforms that never raise, the
  result is the plain composition.
\<close>

theorem pipeline_is_composition:
  "pipeline [t1, t2] seq = bind_err (t1 seq) t2 \<and>
   pipeline [\<lambda>s. Inr (f1 s), \<lambda>s. Inr (f2 s)] seq = Inr (f2 (f1 seq)) \<and>
   pipeline (ts @ [t]) seq = bind_err (pipeline ts seq) t \<and>
   pipeline (map (\<lambda>f s. Inr (f s)) fs) seq = Inr (foldl (\<lambda>s f. f s) seq fs)"
  by (simp add: pipeline_snoc pipeline_pure) (simp add: bind_err_def split: sum.splits)

section \<open>Properties of float64 arithmetic\<close>

subsection \<open>Rounding\<close>

lemma math_round_of_int: "math_round (of_int n) = n"
  by (simp add: math_round_def)

lemma ulp_pos: "0 < ulp x"
  by (simp add: ulp_def)

text \<open>
  The binade of a value: the unit in the last place of a value between \<open>2\<^sup>e\<close> and
  \<open>2\<^sup>e\<^sup>+\<^sup>1\<close> is \<open>2\<^sup>e\<^sup>-\<^sup>5\<^sup>2\<close>, and a value that is a multiple of its unit in the last place
  is not changed by rounding.
\<close>

lemma floor_log2_iff:
  assumes "0 < x"
  shows "\<lfloor>log 2 x\<rfloor> = e \<longleftrightarrow> 2 powi e \<le> x \<and> x < 2 powi (e + 1)"
proof -
  have a: "2 powr real_of_int e = 2 powi e" by (simp add: powr_real_of_int')
  have "2 powr real_of_int (e + 1) = 2 powi (e + 1)" by (rule powr_real_of_int') simp_all
  then have b: "2 powr (real_of_int e + 1) = 2 powi (e + 1)" by simp
  show ?thesis using floor_log_eq_powr_iff [of x 2 e] assms by (simp add: a b)
qed

lemma ulp_eval:
  assumes "2 powi e \<le> \<bar>x\<bar>" "\<bar>x\<bar> < 2 powi (e + 1)" "- 1022 \<le> e"
  shows "ulp x = 2 powi (e - 52)"
proof -
  have pos: "0 < \<bar>x\<bar>" using assms(1) by (smt (verit) zero_less_power_int)
  have "\<lfloor>log 2 \<bar>x\<bar>\<rfloor> = e"
    using assms(1,2) floor_log2_iff [OF pos] by simp
  then show ?thesis using assms(3) by (simp add: ulp_def)
qed

lemma round_f64_exact:
  assumes "x / ulp x \<in> \<int>" "\<bar>x\<bar> < 2 ^ 1024"
  shows "round_f64 x = Fin x"
proof -
  from assms(1) obtain n where n: "x / ulp x = of_int n" by (auto elim: Ints_cases)
  have "of_int (math_round (x / ulp x)) * ulp x = (x / ulp x) * ulp x"
    by (simp only: n math_round_of_int)
  also have "\<dots> = x" using ulp_pos [of x] by simp
  finally show ?thesis using assms(2) by (simp add: round_f64_def Let_def)
qed

lemma round_f64_eval:
  assumes "2 powi e \<le> \<bar>x\<bar>" "\<bar>x\<bar> < 2 powi (e + 1)" "- 1022 \<le> e"
    and "\<bar>of_int (math_round (x / 2 powi (e - 52))) * 2 powi (e - 52)\<bar> < (2::real) ^ 1024"
  shows "round_f64 x = Fin (of_int (math_round (x / 2 powi (e - 52))) * 2 powi (e - 52))"
proof -
  have "x \<noteq> 0" using assms(1) by (smt (verit) zero_less_power_int)
  then show ?thesis
    using assms(4) by (simp add: round_f64_def Let_def ulp_eval [OF assms(1,2,3)])
qed

text \<open>
  An integer of absolute value at most \<open>2\<^sup>5\<^sup>3\<close> is a binary64 number: rounding leaves it
  as it is.
\<close>

lemma round_f64_int:
  assumes "\<bar>k\<bar> \<le> 2 ^ 53"
  shows "round_f64 (of_int k) = Fin (of_int k)"
proof (cases "k = 0")
  case True
  then show ?thesis by (simp add: round_f64_def)
next
  case False
  define x :: real where "x = of_int k"
  have x1: "1 \<le> \<bar>x\<bar>" using False by (simp add: x_def flip: of_int_abs)
  have "real_of_int \<bar>k\<bar> \<le> real_of_int (2 ^ 53)" using assms by (simp only: of_int_le_iff)
  then have x53: "\<bar>x\<bar> \<le> 2 ^ 53" by (simp add: x_def)
  define e where "e = \<lfloor>log 2 \<bar>x\<bar>\<rfloor>"
  have e: "2 powi e \<le> \<bar>x\<bar>" "\<bar>x\<bar> < 2 powi (e + 1)"
    using floor_log2_iff [of "\<bar>x\<bar>" e] x1 by (simp_all add: e_def)
  have e0: "0 \<le> e" using x1 by (simp add: e_def)
  have "(2::real) powi e \<le> 2 powi 53" using e(1) x53 by simp
  then have e53: "e \<le> 53" using power_int_le_imp_le_exp [of 2 e 53] by simp
  have u: "ulp x = 2 powi (e - 52)" using e0 by (simp add: ulp_def e_def)
  have "x / ulp x \<in> \<int>"
  proof (cases "e \<le> 52")
    case True
    have "x / ulp x = x * 2 powi (52 - e)"
      by (simp add: u power_int_diff field_simps)
    also have "\<dots> = x * 2 ^ nat (52 - e)" using True by (simp add: power_int_def)
    finally have "x / ulp x = of_int (k * 2 ^ nat (52 - e))" by (simp add: x_def)
    then show ?thesis by (metis Ints_of_int)
  next
    case False
    then have e': "e = 53" using e53 by simp
    have "\<bar>x\<bar> = 2 ^ 53" using e(1) x53 by (simp add: e')
    then have "x / ulp x = 2 ^ 52 \<or> x / ulp x = - (2 ^ 52)"
      by (auto simp: u e' abs_if split: if_splits)
    then show ?thesis by auto
  qed
  moreover have "(2::real) ^ 53 < 2 ^ 1024" by (rule power_strict_increasing) simp_all
  then have "\<bar>x\<bar> < 2 ^ 1024" using x53 by linarith
  ultimately show ?thesis unfolding x_def [symmetric] by (rule round_f64_exact)
qed

text \<open>
  The rounding of a value whose binade is known, for the evaluation of particular
  values.
\<close>

lemma round_f64_at:
  assumes "2 powi e \<le> \<bar>x\<bar>" "\<bar>x\<bar> < 2 powi (e + 1)" "- 1022 \<le> e"
    and "math_round (x / 2 powi (e - 52)) = n"
    and "\<bar>of_int n * 2 powi (e - 52)\<bar> < (2::real) ^ 1024"
  shows "round_f64 x = Fin (of_int n * 2 powi (e - 52))"
  using round_f64_eval [OF assms(1,2,3)] assms(4,5) by simp

lemmas eval_simps = power_int_def math_round_def power_one_over Let_def

subsection \<open>Special values and the value of the fit\<close>

lemma nonfinite_signed_inf: "nonfinite (signed_inf a)"
  by (simp add: signed_inf_def)

lemma fdiv_zero_nonfinite: "nonfinite (fdiv x (Fin 0))"
  by (cases x) (simp_all add: nonfinite_signed_inf)

lemma fmul_nonfinite: "nonfinite x \<Longrightarrow> nonfinite (fmul x y)"
  by (cases x; cases y) (simp_all add: nonfinite_signed_inf)

lemma fadd_nonfinite: "nonfinite y \<Longrightarrow> nonfinite (fadd x y)"
  by (cases x; cases y) simp_all

lemma fneg_nonfinite: "nonfinite y \<Longrightarrow> nonfinite (fneg y)"
  by (cases y) simp_all

lemma fsub_nonfinite: "nonfinite y \<Longrightarrow> nonfinite (fsub x y)"
  by (simp add: fsub_def fadd_nonfinite fneg_nonfinite)

lemma fdiv_nonfinite: "nonfinite x \<Longrightarrow> nonfinite (fdiv x y)"
  by (cases x; cases y) simp_all

lemma to_float_zero: "d = I 0 \<or> d = F (Fin 0) \<Longrightarrow> to_float d = Fin 0"
  by (auto simp: round_f64_def)

lemma smul_F: "smul (F x) y = F (fmul x (to_float y))"
  by (cases y) simp_all

lemma ssub_F: "ssub x (F y) = F (fsub (to_float x) y)"
  by (cases x) simp_all

lemma multiply_same_length: "length xs = length ys \<Longrightarrow> multiply xs ys = Inr (map2 smul xs ys)"
  by (simp add: multiply_def)

lemma length_stacked: "length (stacked xs) = length xs"
  by (simp add: stacked_def)

text \<open>
  For scale factors and energies of one length, at least one, nothing is raised and
  the value is the closed form evaluated with the operations on scalars.
\<close>

lemma fit_zne_value:
  assumes "length scale_factors = length energies" "energies \<noteq> []"
  shows "fit_zne math_sum scale_factors energies =
     Inr (sdiv (ssub (array_sum math_sum (stacked energies))
                 (smul (sdiv (ssub (smul (I (int (length energies)))
                                     (array_sum math_sum
                                        (map2 smul (stacked scale_factors) (stacked energies))))
                                   (smul (array_sum math_sum (stacked scale_factors))
                                         (array_sum math_sum (stacked energies))))
                             (denominator math_sum (length energies) (stacked scale_factors)))
                       (array_sum math_sum (stacked scale_factors))))
            (I (int (length energies))))"
proof -
  have "scale_factors \<noteq> []" using assms by auto
  then show ?thesis
    using assms
    by (simp add: fit_zne_def stack_def Let_def multiply_same_length length_stacked)
qed

text \<open>
  A division by a zero denominator gives NaN or an infinity, and neither is lost on the
  way to the intercept.
\<close>

lemma fit_zne_zero_denominator:
  assumes "length scale_factors = length energies" "energies \<noteq> []"
  shows "\<exists>v. fit_zne math_sum scale_factors energies = Inr (F v) \<and>
           (denominator math_sum (length energies) (stacked scale_factors) = I 0 \<or>
            denominator math_sum (length energies) (stacked scale_factors) = F (Fin 0)
              \<longrightarrow> nonfinite v)"
proof -
  let ?den = "denominator math_sum (length energies) (stacked scale_factors)"
  let ?S = "array_sum math_sum (stacked scale_factors)"
  let ?E = "array_sum math_sum (stacked energies)"
  let ?N = "I (int (length energies))"
  let ?num = "ssub (smul ?N (array_sum math_sum
                 (map2 smul (stacked scale_factors) (stacked energies)))) (smul ?S ?E)"
  let ?slope = "fdiv (to_float ?num) (to_float ?den)"
  let ?v = "fdiv (fsub (to_float ?E) (fmul ?slope (to_float ?S))) (to_float ?N)"
  have val: "fit_zne math_sum scale_factors energies = Inr (F ?v)"
    unfolding fit_zne_value [OF assms] sdiv_def smul_F ssub_F to_float.simps by (rule refl)
  have "nonfinite ?v" if "?den = I 0 \<or> ?den = F (Fin 0)"
  proof -
    have z: "to_float ?den = Fin 0" using that by (rule to_float_zero)
    show ?thesis
      unfolding z
      by (intro fdiv_nonfinite fsub_nonfinite fmul_nonfinite fdiv_zero_nonfinite)
  qed
  with val show ?thesis by blast
qed

subsection \<open>Integers among the floats\<close>

lemma int_value_fin: "int_value (fin k) = k"
  by (simp add: int_value_def)

lemma integral_fin: "integral (fin k)"
  by (simp add: integral_def int_value_def)

lemma fadd_int: "\<bar>a + b\<bar> \<le> 2 ^ 53 \<Longrightarrow> fadd (fin a) (fin b) = fin (a + b)"
  using round_f64_int [of "a + b"] by simp

lemma fsub_int: "\<bar>a - b\<bar> \<le> 2 ^ 53 \<Longrightarrow> fsub (fin a) (fin b) = fin (a - b)"
  using round_f64_int [of "a - b"] by (simp add: fsub_def)

lemma fmul_int: "\<bar>a * b\<bar> \<le> 2 ^ 53 \<Longrightarrow> fmul (fin a) (fin b) = fin (a * b)"
  using round_f64_int [of "a * b"] by simp

lemma fdiv_int:
  assumes "b \<noteq> 0" "real_of_int a / real_of_int b = real_of_int q" "\<bar>q\<bar> \<le> 2 ^ 53"
  shows "fdiv (fin a) (fin b) = fin q"
  using round_f64_int [OF assms(3)] assms(1,2) by simp

text \<open>
  Adding up integer-valued floats is exact in any order, as long as the absolute values
  add up to \<open>2\<^sup>5\<^sup>3\<close> at most.
\<close>

lemma adds_up_int_aux:
  assumes "adds_up xs v"
  shows "(\<forall>x\<in>set xs. integral x) \<longrightarrow> (\<Sum>x\<leftarrow>xs. \<bar>int_value x\<bar>) \<le> 2 ^ 53 \<longrightarrow>
         v = fin (\<Sum>x\<leftarrow>xs. int_value x)"
  using assms
proof (induction rule: adds_up.induct)
  case empty
  then show ?case by simp
next
  case (single x)
  then show ?case by (simp add: integral_def)
next
  case (join xs a ys b)
  show ?case
  proof (intro impI)
    assume int: "\<forall>x\<in>set (xs @ ys). integral x"
      and bound: "(\<Sum>x\<leftarrow>xs @ ys. \<bar>int_value x\<bar>) \<le> 2 ^ 53"
    have nn: "0 \<le> (\<Sum>x\<leftarrow>xs. \<bar>int_value x\<bar>)" "0 \<le> (\<Sum>x\<leftarrow>ys. \<bar>int_value x\<bar>)"
      by (rule sum_list_nonneg, auto)+
    have a: "a = fin (\<Sum>x\<leftarrow>xs. int_value x)" using join.IH(1) int bound nn by simp
    have b: "b = fin (\<Sum>x\<leftarrow>ys. int_value x)" using join.IH(2) int bound nn by simp
    have "\<bar>(\<Sum>x\<leftarrow>xs. int_value x)\<bar> \<le> (\<Sum>x\<leftarrow>xs. \<bar>int_value x\<bar>)"
      "\<bar>(\<Sum>x\<leftarrow>ys. int_value x)\<bar> \<le> (\<Sum>x\<leftarrow>ys. \<bar>int_value x\<bar>)"
      using sum_list_abs [of "map int_value xs"] sum_list_abs [of "map int_value ys"]
      by (simp_all add: comp_def)
    then have "\<bar>(\<Sum>x\<leftarrow>xs. int_value x) + (\<Sum>x\<leftarrow>ys. int_value x)\<bar> \<le> 2 ^ 53"
      using bound by simp
    then show "fadd a b = fin (\<Sum>x\<leftarrow>xs @ ys. int_value x)"
      by (simp only: a b fadd_int) simp
  qed
next
  case (reorder xs a ys)
  have "set xs = set ys" using reorder.hyps(2) by (rule mset_eq_setD)
  moreover have "(\<Sum>x\<leftarrow>xs. f x) = (\<Sum>x\<leftarrow>ys. f x)" for f :: "float64 \<Rightarrow> int"
    using reorder.hyps(2) by (metis mset_map sum_mset_sum_list)
  ultimately show ?case using reorder.IH by simp
qed

lemma adds_up_int:
  assumes "adds_up (map fin ks) v" "(\<Sum>k\<leftarrow>ks. \<bar>k\<bar>) \<le> 2 ^ 53"
  shows "v = fin (sum_list ks)"
proof -
  have "(\<Sum>x\<leftarrow>map fin ks. \<bar>int_value x\<bar>) = (\<Sum>k\<leftarrow>ks. \<bar>k\<bar>)"
    by (simp add: comp_def int_value_fin)
  moreover have "(\<Sum>x\<leftarrow>map fin ks. int_value x) = sum_list ks"
    by (simp add: comp_def int_value_fin)
  moreover have "\<forall>x\<in>set (map fin ks). integral x" by (auto simp: integral_fin)
  ultimately show ?thesis using adds_up_int_aux [OF assms(1)] assms(2) by simp
qed

text \<open>
  Summing from left to right, starting from zero, is one way of adding up.
\<close>

lemma sequential_sum_adds_up: "adds_up xs (sequential_sum xs)"
proof -
  have "adds_up ys a \<Longrightarrow> adds_up (ys @ xs) (foldl fadd a xs)" for ys a
  proof (induction xs arbitrary: ys a)
    case Nil
    then show ?case by simp
  next
    case (Cons x xs)
    have "adds_up (ys @ [x]) (fadd a x)"
      using Cons.prems adds_up.single by (rule adds_up.join)
    from Cons.IH [OF this] show ?case by simp
  qed
  from this [OF adds_up.empty] show ?thesis by (simp add: sequential_sum_def)
qed

subsection \<open>Rounding of particular values\<close>

lemma round_f64_zero: "round_f64 0 = Fin 0"
  by (simp add: round_f64_def)

lemma round_f64_one: "round_f64 1 = Fin 1"
  using round_f64_int [of 1] by simp

lemma round_f64_numeral: "(numeral w :: int) \<le> 2 ^ 53 \<Longrightarrow> round_f64 (numeral w) = Fin (numeral w)"
  using round_f64_int [of "numeral w"] by simp

lemma round_f64_neg_numeral:
  "(numeral w :: int) \<le> 2 ^ 53 \<Longrightarrow> round_f64 (- numeral w) = Fin (- numeral w)"
  using round_f64_int [of "- numeral w"] by simp

lemmas round_small = round_f64_zero round_f64_one round_f64_numeral round_f64_neg_numeral

lemma round_example_1: "round_f64 (1 / 2251799813685248) = Fin (1 / 2251799813685248)"
  using round_f64_at [where e = "-51" and x = "1 / 2251799813685248" and n = "4503599627370496"]
  by (simp add: eval_simps)

lemma round_example_2: "round_f64 (1 / 3) = Fin (6004799503160661 / 18014398509481984)"
  using round_f64_at [where e = "-2" and x = "1 / 3" and n = "6004799503160661"]
  by (simp add: eval_simps)

lemma round_example_3: "round_f64 (4503599627370495 / 4503599627370496) = Fin (4503599627370495 / 4503599627370496)"
  using round_f64_at [where e = "-1" and x = "4503599627370495 / 4503599627370496" and n = "9007199254740990"]
  by (simp add: eval_simps)

lemma round_example_4: "round_f64 (4503599627370497 / 4503599627370496) = Fin (4503599627370497 / 4503599627370496)"
  using round_f64_at [where e = "0" and x = "4503599627370497 / 4503599627370496" and n = "4503599627370497"]
  by (simp add: eval_simps)

lemma round_example_5: "round_f64 (30023997515803305 / 18014398509481984) = Fin (3752999689475413 / 2251799813685248)"
  using round_f64_at [where e = "0" and x = "30023997515803305 / 18014398509481984" and n = "7505999378950826"]
  by (simp add: eval_simps)

lemma round_example_6: "round_f64 (5 / 3) = Fin (7505999378950827 / 4503599627370496)"
  using round_f64_at [where e = "0" and x = "5 / 3" and n = "7505999378950827"]
  by (simp add: eval_simps)

lemma round_example_7: "round_f64 (4503599627370495 / 2251799813685248) = Fin (4503599627370495 / 2251799813685248)"
  using round_f64_at [where e = "0" and x = "4503599627370495 / 2251799813685248" and n = "9007199254740990"]
  by (simp add: eval_simps)

lemma round_example_8: "round_f64 (9007199254740993 / 4503599627370496) = Fin (2)"
  using round_f64_at [where e = "1" and x = "9007199254740993 / 4503599627370496" and n = "4503599627370496"]
  by (simp add: eval_simps)

lemma round_example_9: "round_f64 (4503599627370497 / 2251799813685248) = Fin (4503599627370497 / 2251799813685248)"
  using round_f64_at [where e = "1" and x = "4503599627370497 / 2251799813685248" and n = "4503599627370497"]
  by (simp add: eval_simps)

lemmas fit_eval = fit_zne_def stack_def stacked_def array_sum_def sequential_sum_def multiply_def
  denominator_def sdiv_def fsub_def signed_inf_def

lemma round_example_10: "round_f64 (1 / 4503599627370496) = Fin (1 / 4503599627370496)"
  using round_f64_at [where e = "-52" and x = "1 / 4503599627370496" and n = "4503599627370496"]
  by (simp add: eval_simps)

lemma round_example_11: "round_f64 (29206669829258403248756220714025 / 324518553658426726783156020576256) = Fin (3242591731706757 / 36028797018963968)"
  using round_f64_at [where e = "-4" and x = "29206669829258403248756220714025 / 324518553658426726783156020576256" and n = "6485183463413514"]
  by (simp add: eval_simps)

lemma round_example_12: "round_f64 (3242591731706757 / 36028797018963968) = Fin (3242591731706757 / 36028797018963968)"
  using round_f64_at [where e = "-4" and x = "3242591731706757 / 36028797018963968" and n = "6485183463413514"]
  by (simp add: eval_simps)

lemma round_example_13: "round_f64 (3242591731706757 / 18014398509481984) = Fin (3242591731706757 / 18014398509481984)"
  using round_f64_at [where e = "-3" and x = "3242591731706757 / 18014398509481984" and n = "6485183463413514"]
  by (simp add: eval_simps)

lemma round_example_14: "round_f64 (9727775195120271 / 36028797018963968) = Fin (607985949695017 / 2251799813685248)"
  using round_f64_at [where e = "-2" and x = "9727775195120271 / 36028797018963968" and n = "4863887597560136"]
  by (simp add: eval_simps)

lemma round_example_15: "round_f64 (5404319552844595 / 18014398509481984) = Fin (5404319552844595 / 18014398509481984)"
  using round_f64_at [where e = "-2" and x = "5404319552844595 / 18014398509481984" and n = "5404319552844595"]
  by (simp add: eval_simps)

lemma round_example_16: "round_f64 (5404319552844595 / 9007199254740992) = Fin (5404319552844595 / 9007199254740992)"
  using round_f64_at [where e = "-1" and x = "5404319552844595 / 9007199254740992" and n = "5404319552844595"]
  by (simp add: eval_simps)

lemma round_example_17: "round_f64 (4107187944739462450201385458729 / 5070602400912917605986812821504) = Fin (3647915698170101 / 4503599627370496)"
  using round_f64_at [where e = "-1" and x = "4107187944739462450201385458729 / 5070602400912917605986812821504" and n = "7295831396340202"]
  by (simp add: eval_simps)

lemma round_example_18: "round_f64 (1823957849085051 / 2251799813685248) = Fin (1823957849085051 / 2251799813685248)"
  using round_f64_at [where e = "-1" and x = "1823957849085051 / 2251799813685248" and n = "7295831396340204"]
  by (simp add: eval_simps)

lemma round_example_19: "round_f64 (16212958658533785 / 18014398509481984) = Fin (2026619832316723 / 2251799813685248)"
  using round_f64_at [where e = "-1" and x = "16212958658533785 / 18014398509481984" and n = "8106479329266892"]
  by (simp add: eval_simps)

lemma round_example_20: "round_f64 (2026619832316723 / 1125899906842624) = Fin (2026619832316723 / 1125899906842624)"
  using round_f64_at [where e = "0" and x = "2026619832316723 / 1125899906842624" and n = "8106479329266892"]
  by (simp add: eval_simps)

lemma round_example_21: "round_f64 (6079859496950169 / 1125899906842624) = Fin (6079859496950169 / 1125899906842624)"
  using round_f64_at [where e = "2" and x = "6079859496950169 / 1125899906842624" and n = "6079859496950169"]
  by (simp add: eval_simps)

lemma round_example_22: "round_f64 (10000000000000000) = Fin (10000000000000000)"
  using round_f64_at [where e = "53" and x = "10000000000000000" and n = "5000000000000000"]
  by (simp add: eval_simps)

lemma round_example_23: "round_f64 (10000000200000001) = Fin (10000000200000000)"
  using round_f64_at [where e = "53" and x = "10000000200000001" and n = "5000000100000000"]
  by (simp add: eval_simps)

lemma round_example_24: "round_f64 (20000000200000000) = Fin (20000000200000000)"
  using round_f64_at [where e = "54" and x = "20000000200000000" and n = "5000000050000000"]
  by (simp add: eval_simps)

lemma round_example_25: "round_f64 (40000000400000000) = Fin (40000000400000000)"
  using round_f64_at [where e = "55" and x = "40000000400000000" and n = "5000000050000000"]
  by (simp add: eval_simps)

lemma round_example_26: "round_f64 (40000000400000001) = Fin (40000000400000000)"
  using round_f64_at [where e = "55" and x = "40000000400000001" and n = "5000000050000000"]
  by (simp add: eval_simps)

section \<open>Properties of the linear fit\<close>

subsection \<open>Arrays of integer-valued floats\<close>

lemma stacked_floats: "stacked (map Ffin ks) = map Ffin ks"
  by (simp add: stacked_def comp_def)

lemma not_all_int: "ks \<noteq> [] \<Longrightarrow> \<not> list_all is_int (map Ffin ks)"
  by (cases ks) simp_all

lemma array_sum_floats:
  assumes "\<forall>xs. adds_up xs (math_sum xs)" "ks \<noteq> []" "(\<Sum>k\<leftarrow>ks. \<bar>k\<bar>) \<le> 2 ^ 53"
  shows "array_sum math_sum (map Ffin ks) = Ffin (sum_list ks)"
proof -
  have "adds_up (map fin ks) (math_sum (map fin ks))" using assms(1) by blast
  from adds_up_int [OF this assms(3)] show ?thesis
    using not_all_int [OF assms(2)] by (simp add: array_sum_def comp_def)
qed

lemma map2_smul_floats:
  assumes "(\<Sum>(k, j)\<leftarrow>zip ks js. \<bar>k * j\<bar>) \<le> 2 ^ 53"
  shows "map2 smul (map Ffin ks) (map Ffin js) = map Ffin (map2 (*) ks js)"
  using assms
proof (induction ks arbitrary: js)
  case Nil
  then show ?case by simp
next
  case (Cons k ks)
  show ?case
  proof (cases js)
    case Nil
    then show ?thesis by simp
  next
    case (Cons j js')
    have nn: "0 \<le> (\<Sum>(k, j)\<leftarrow>zip ks js'. \<bar>k * j\<bar>)"
      by (rule sum_list_nonneg) auto
    have tot: "\<bar>k * j\<bar> + (\<Sum>(k, j)\<leftarrow>zip ks js'. \<bar>k * j\<bar>) \<le> 2 ^ 53"
      using Cons.prems by (simp add: Cons)
    have "\<bar>k * j\<bar> \<le> 2 ^ 53" using tot nn by linarith
    moreover have "(\<Sum>(k, j)\<leftarrow>zip ks js'. \<bar>k * j\<bar>) \<le> 2 ^ 53"
      using tot abs_ge_zero [of "k * j"] by linarith
    ultimately show ?thesis
      using Cons.IH [of js'] fmul_int [of k j] by (simp add: Cons)
  qed
qed

lemma squares_floats:
  assumes "(\<Sum>k\<leftarrow>ks. \<bar>k * k\<bar>) \<le> 2 ^ 53"
  shows "map (\<lambda>s. smul s s) (map Ffin ks) = map Ffin (map (\<lambda>k. k * k) ks)"
  using assms
proof (induction ks)
  case Nil
  then show ?case by simp
next
  case (Cons k ks)
  have nn: "0 \<le> (\<Sum>k\<leftarrow>ks. \<bar>k * k\<bar>)" by (rule sum_list_nonneg) auto
  have tot: "\<bar>k * k\<bar> + (\<Sum>k\<leftarrow>ks. \<bar>k * k\<bar>) \<le> 2 ^ 53" using Cons.prems by simp
  have "\<bar>k * k\<bar> \<le> 2 ^ 53" using tot nn by linarith
  moreover have "(\<Sum>k\<leftarrow>ks. \<bar>k * k\<bar>) \<le> 2 ^ 53" using tot abs_ge_zero [of "k * k"] by linarith
  ultimately show ?case using Cons.IH fmul_int [of k k] by simp
qed

lemma smul_I_F: "\<bar>n\<bar> \<le> 2 ^ 53 \<Longrightarrow> \<bar>n * a\<bar> \<le> 2 ^ 53 \<Longrightarrow> smul (I n) (Ffin a) = Ffin (n * a)"
  using round_f64_int [of n] fmul_int [of n a] by simp

lemma smul_F_F: "\<bar>a * b\<bar> \<le> 2 ^ 53 \<Longrightarrow> smul (Ffin a) (Ffin b) = Ffin (a * b)"
  using fmul_int [of a b] by simp

lemma ssub_F_F: "\<bar>a - b\<bar> \<le> 2 ^ 53 \<Longrightarrow> ssub (Ffin a) (Ffin b) = Ffin (a - b)"
  using fsub_int [of a b] by simp

lemma sdiv_F_F:
  assumes "b \<noteq> 0" "a = q * b" "\<bar>q\<bar> \<le> 2 ^ 53"
  shows "sdiv (Ffin a) (Ffin b) = Ffin q"
  using fdiv_int [of b a q] assms by (simp add: sdiv_def)

lemma sdiv_F_I:
  assumes "n \<noteq> 0" "\<bar>n\<bar> \<le> 2 ^ 53" "a = q * n" "\<bar>q\<bar> \<le> 2 ^ 53"
  shows "sdiv (Ffin a) (I n) = Ffin q"
  using fdiv_int [of n a q] round_f64_int [of n] assms by (simp add: sdiv_def)

text \<open>
  The fit of integer-valued floats, when every intermediate result is an integer of
  absolute value at most \<open>2\<^sup>5\<^sup>3\<close> and both divisions come out even: no operation rounds.
\<close>

lemma fit_zne_exact_core:
  fixes ks js :: "int list"
  defines "n \<equiv> int (length js)"
  defines "S \<equiv> sum_list ks" and "E \<equiv> sum_list js"
  defines "P \<equiv> (\<Sum>(k, j)\<leftarrow>zip ks js. k * j)" and "Q \<equiv> (\<Sum>k\<leftarrow>ks. k * k)"
  assumes sum: "\<forall>xs. adds_up xs (math_sum xs)"
    and len: "length ks = length js" "js \<noteq> []"
    and bS: "(\<Sum>k\<leftarrow>ks. \<bar>k\<bar>) \<le> 2 ^ 53" and bE: "(\<Sum>j\<leftarrow>js. \<bar>j\<bar>) \<le> 2 ^ 53"
    and bP: "(\<Sum>(k, j)\<leftarrow>zip ks js. \<bar>k * j\<bar>) \<le> 2 ^ 53"
    and bQ: "(\<Sum>k\<leftarrow>ks. \<bar>k * k\<bar>) \<le> 2 ^ 53"
    and bn: "n \<le> 2 ^ 53" "\<bar>n * P\<bar> \<le> 2 ^ 53" "\<bar>S * E\<bar> \<le> 2 ^ 53" "\<bar>n * P - S * E\<bar> \<le> 2 ^ 53"
      "\<bar>n * Q\<bar> \<le> 2 ^ 53" "\<bar>S * S\<bar> \<le> 2 ^ 53" "\<bar>n * Q - S * S\<bar> \<le> 2 ^ 53"
    and den: "n * Q - S * S \<noteq> 0"
    and slope: "n * P - S * E = m * (n * Q - S * S)" "\<bar>m\<bar> \<le> 2 ^ 53"
    and rest: "\<bar>m * S\<bar> \<le> 2 ^ 53" "\<bar>E - m * S\<bar> \<le> 2 ^ 53"
    and icpt: "E - m * S = b * n" "\<bar>b\<bar> \<le> 2 ^ 53"
  shows "fit_zne math_sum (map Ffin ks) (map Ffin js) = Inr (Ffin b)"
proof -
  have ne: "ks \<noteq> []" using len by auto
  have n0: "n \<noteq> 0" "\<bar>n\<bar> \<le> 2 ^ 53" using len(2) bn(1) by (simp_all add: n_def)
  have prods: "map2 smul (map Ffin ks) (map Ffin js) = map Ffin (map2 (*) ks js)"
    using bP by (rule map2_smul_floats)
  have pne: "map2 (*) ks js \<noteq> []" using len ne by (cases ks; cases js) simp_all
  have bP': "(\<Sum>p\<leftarrow>map2 (*) ks js. \<bar>p\<bar>) \<le> 2 ^ 53"
    using bP by (simp add: comp_def case_prod_unfold)
  have sumS: "array_sum math_sum (map Ffin ks) = Ffin S"
    unfolding S_def using sum ne bS by (rule array_sum_floats)
  have sumE: "array_sum math_sum (map Ffin js) = Ffin E"
    unfolding E_def using sum len(2) bE by (rule array_sum_floats)
  have "array_sum math_sum (map Ffin (map2 (*) ks js)) = Ffin (sum_list (map2 (*) ks js))"
    using sum pne bP' by (rule array_sum_floats)
  then have sumP: "array_sum math_sum (map Ffin (map2 (*) ks js)) = Ffin P"
    by (simp add: P_def)
  have sqne: "map (\<lambda>k. k * k) ks \<noteq> []" using ne by simp
  have bQ': "(\<Sum>q\<leftarrow>map (\<lambda>k. k * k) ks. \<bar>q\<bar>) \<le> 2 ^ 53" using bQ by (simp add: comp_def)
  have "array_sum math_sum (map Ffin (map (\<lambda>k. k * k) ks)) = Ffin (sum_list (map (\<lambda>k. k * k) ks))"
    using sum sqne bQ' by (rule array_sum_floats)
  then have sumQ: "array_sum math_sum (map (\<lambda>s. smul s s) (map Ffin ks)) = Ffin Q"
    by (simp only: squares_floats [OF bQ] Q_def)
  have den_val: "denominator math_sum (length js) (map Ffin ks) = Ffin (n * Q - S * S)"
    unfolding denominator_def sumQ sumS n_def [symmetric]
    by (simp only: smul_I_F [OF n0(2) bn(5)] smul_F_F [OF bn(6)] ssub_F_F [OF bn(7)])
  have num_val: "ssub (smul (I n) (Ffin P)) (smul (Ffin S) (Ffin E)) = Ffin (n * P - S * E)"
    by (simp only: smul_I_F [OF n0(2) bn(2)] smul_F_F [OF bn(3)] ssub_F_F [OF bn(4)])
  have slope_val: "sdiv (Ffin (n * P - S * E)) (Ffin (n * Q - S * S)) = Ffin m"
    using den slope by (rule sdiv_F_F)
  have icpt_val: "sdiv (ssub (Ffin E) (smul (Ffin m) (Ffin S))) (I n) = Ffin b"
    by (simp only: smul_F_F [OF rest(1)] ssub_F_F [OF rest(2)] sdiv_F_I [OF n0 icpt])
  show ?thesis
    unfolding fit_zne_value [of "map Ffin ks" "map Ffin js" math_sum, simplified, OF len]
      stacked_floats prods sumS sumE sumP den_val n_def [symmetric] num_val slope_val icpt_val
    by (rule refl)
qed

subsection \<open>The closed form over the reals\<close>

lemma sum_list_dev:
  fixes ss :: "real list"
  shows "(\<Sum>s\<leftarrow>ss. (s - c) * (s - c)) = (\<Sum>s\<leftarrow>ss. s * s) - 2 * c * sum_list ss + real (length ss) * c * c"
  by (induction ss) (simp_all add: algebra_simps)

text \<open>
  The denominator of the closed form is \<open>N\<close> times the sum of the squared deviations
  from the mean, hence positive when two scale factors differ.
\<close>

lemma denominator_pos:
  fixes ss :: "real list"
  assumes "x \<in> set ss" "y \<in> set ss" "x \<noteq> y"
  shows "0 < real (length ss) * (\<Sum>s\<leftarrow>ss. s * s) - sum_list ss * sum_list ss"
proof -
  define n where "n = real (length ss)"
  have npos: "0 < n" using assms(1) by (cases ss) (auto simp: n_def)
  define c where "c = sum_list ss / n"
  have nonneg: "0 \<le> (\<Sum>s\<leftarrow>ss. (s - c) * (s - c))"
    by (rule sum_list_nonneg) auto
  have "(\<Sum>s\<leftarrow>ss. (s - c) * (s - c)) \<noteq> 0"
  proof
    assume z: "(\<Sum>s\<leftarrow>ss. (s - c) * (s - c)) = 0"
    have "\<forall>v\<in>set (map (\<lambda>s. (s - c) * (s - c)) ss). 0 \<le> v" by auto
    then have "\<forall>v\<in>set (map (\<lambda>s. (s - c) * (s - c)) ss). v = 0"
      using z sum_list_nonneg_eq_0_iff by blast
    then have all: "\<forall>s\<in>set ss. s = c" by simp
    have "x = c" using all assms(1) by blast
    moreover have "y = c" using all assms(2) by blast
    ultimately show False using assms(3) by simp
  qed
  with nonneg have pos: "0 < (\<Sum>s\<leftarrow>ss. (s - c) * (s - c))" by simp
  define D where "D = (\<Sum>s\<leftarrow>ss. (s - c) * (s - c))"
  define Q where "Q = (\<Sum>s\<leftarrow>ss. s * s)"
  define S where "S = sum_list ss"
  have cn: "S = c * n" using npos by (simp add: c_def S_def)
  have "D = Q - 2 * c * S + n * c * c"
    unfolding D_def Q_def S_def n_def by (rule sum_list_dev)
  then have "n * D = n * (Q - 2 * c * (c * n) + n * c * c)"
    by (simp only: cn)
  also have "\<dots> = n * Q - (c * n) * (c * n)"
    by (simp add: algebra_simps)
  finally have "n * D = n * Q - S * S"
    by (simp only: cn)
  then have "n * (\<Sum>s\<leftarrow>ss. (s - c) * (s - c)) = n * (\<Sum>s\<leftarrow>ss. s * s) - sum_list ss * sum_list ss"
    by (simp only: D_def Q_def S_def)
  moreover have "0 < n * (\<Sum>s\<leftarrow>ss. (s - c) * (s - c))" using npos pos by simp
  ultimately show ?thesis by (simp add: n_def)
qed

lemma sum_list_affine: "(\<Sum>s\<leftarrow>ss. m * s + b) = m * sum_list ss + real (length ss) * (b::real)"
  by (induction ss) (simp_all add: algebra_simps)

lemma sum_list_zip_affine:
  "(\<Sum>(s, e)\<leftarrow>zip ss (map (\<lambda>s. m * s + b) ss). s * e) = m * (\<Sum>s\<leftarrow>ss. s * s) + b * sum_list (ss::real list)"
  by (induction ss) (simp_all add: algebra_simps)

lemma sum_list_map2_linear:
  "length es = length es' \<Longrightarrow>
   sum_list (map2 (\<lambda>x y. a * x + b * y) es es') = a * sum_list es + b * sum_list (es'::real list)"
  by (induction es es' rule: list_induct2) (simp_all add: algebra_simps)

lemma sum_list_zip_linear:
  "length ss = length es \<Longrightarrow> length es = length es' \<Longrightarrow>
   (\<Sum>(s, e)\<leftarrow>zip ss (map2 (\<lambda>x y. a * x + b * y) es es'). s * e) =
     a * (\<Sum>(s, e)\<leftarrow>zip ss es. s * e) + b * (\<Sum>(s, e)\<leftarrow>zip ss es'. s * (e::real))"
  by (induction ss es es' rule: list_induct3) (simp_all add: algebra_simps)

lemma spec_intercept_linear_data:
  assumes "real (length ss) * (\<Sum>s\<leftarrow>ss. s * s) - sum_list ss * sum_list ss \<noteq> 0" "ss \<noteq> []"
  shows "spec_intercept ss (map (\<lambda>s. m * s + b) ss) = b"
proof -
  define n where "n = real (length ss)"
  define Q where "Q = (\<Sum>s\<leftarrow>ss. s * s)"
  define S where "S = sum_list ss"
  have npos: "n \<noteq> 0" using assms(2) by (simp add: n_def)
  have den: "n * Q - S * S \<noteq> 0" using assms(1) by (simp add: n_def Q_def S_def)
  have "n * (m * Q + b * S) - S * (m * S + n * b) = m * (n * Q - S * S)"
    by (simp add: algebra_simps)
  then have slope: "(n * (m * Q + b * S) - S * (m * S + n * b)) / (n * Q - S * S) = m"
    using den by simp
  have "spec_slope ss (map (\<lambda>s. m * s + b) ss) = m"
    unfolding spec_slope_def sum_list_affine sum_list_zip_affine length_map
    using slope by (simp only: n_def Q_def S_def)
  then show ?thesis
    using npos by (simp add: spec_intercept_def sum_list_affine n_def)
qed

lemma spec_intercept_linear:
  assumes "length ss = length es" "length es = length es'"
  shows "spec_intercept ss (map2 (\<lambda>x y. a * x + b * y) es es') =
         a * spec_intercept ss es + b * spec_intercept ss es'"
proof -
  have len: "length (map2 (\<lambda>x y. a * x + b * y) es es') = length es"
    using assms by simp
  have slope: "spec_slope ss (map2 (\<lambda>x y. a * x + b * y) es es') =
      a * spec_slope ss es + b * spec_slope ss es'"
    unfolding spec_slope_def len sum_list_zip_linear [OF assms] sum_list_map2_linear [OF assms(2)]
    using assms(2) by (simp add: algebra_simps add_divide_distrib diff_divide_distrib)
  show ?thesis
    unfolding spec_intercept_def len slope sum_list_map2_linear [OF assms(2)]
    using assms(2) by (simp add: algebra_simps add_divide_distrib diff_divide_distrib)
qed

lemma residual_sum:
  "length ss = length es \<Longrightarrow>
   (\<Sum>(s, e)\<leftarrow>zip ss es. e - (m * s + b)) =
     sum_list es - m * sum_list ss - real (length es) * (b::real)"
  by (induction ss es rule: list_induct2) (simp_all add: algebra_simps)

lemma residual_moment:
  "length ss = length es \<Longrightarrow>
   (\<Sum>(s, e)\<leftarrow>zip ss es. s * (e - (m * s + b))) =
     (\<Sum>(s, e)\<leftarrow>zip ss es. s * e) - m * (\<Sum>s\<leftarrow>ss. s * s) - b * sum_list (ss::real list)"
  by (induction ss es rule: list_induct2) (simp_all add: algebra_simps)

lemma squared_error_shift:
  "length ss = length es \<Longrightarrow>
   squared_error ss es (m - dm) (b - db) =
     squared_error ss es m b
     + 2 * dm * (\<Sum>(s, e)\<leftarrow>zip ss es. s * (e - (m * s + b)))
     + 2 * db * (\<Sum>(s, e)\<leftarrow>zip ss es. e - (m * s + b))
     + (\<Sum>s\<leftarrow>ss. (dm * s + db) * (dm * s + db))"
  unfolding squared_error_def
  by (induction ss es rule: list_induct2) (simp_all add: algebra_simps)

lemma normal_equations:
  assumes "length ss = length es" "es \<noteq> []"
    and den: "real (length es) * (\<Sum>s\<leftarrow>ss. s * s) - sum_list ss * sum_list ss \<noteq> 0"
  shows "(\<Sum>(s, e)\<leftarrow>zip ss es. e - (spec_slope ss es * s + spec_intercept ss es)) = 0"
    and "(\<Sum>(s, e)\<leftarrow>zip ss es. s * (e - (spec_slope ss es * s + spec_intercept ss es))) = 0"
proof -
  define n where "n = real (length es)"
  define S where "S = sum_list ss"
  define E where "E = sum_list es"
  define P where "P = (\<Sum>(s, e)\<leftarrow>zip ss es. s * e)"
  define Q where "Q = (\<Sum>s\<leftarrow>ss. s * s)"
  define m where "m = spec_slope ss es"
  define b where "b = spec_intercept ss es"
  have n0: "n \<noteq> 0" using assms(2) by (simp add: n_def)
  have d0: "n * Q - S * S \<noteq> 0" using den by (simp add: n_def Q_def S_def)
  have m: "m * (n * Q - S * S) = n * P - S * E"
    using d0 by (simp add: m_def spec_slope_def n_def Q_def S_def P_def E_def)
  have b: "n * b = E - m * S"
    using n0 by (simp add: b_def m_def spec_intercept_def n_def E_def S_def)
  have "E - m * S - n * b = 0" using b by simp
  then show "(\<Sum>(s, e)\<leftarrow>zip ss es. e - (spec_slope ss es * s + spec_intercept ss es)) = 0"
    unfolding residual_sum [OF assms(1)] by (simp add: E_def S_def n_def m_def b_def)
  have "n * (P - m * Q - b * S) = (n * P - S * E) - m * (n * Q - S * S) + S * (E - m * S - n * b)"
    by (simp add: algebra_simps)
  also have "\<dots> = 0" using m b by simp
  finally have "P - m * Q - b * S = 0" using n0 by simp
  then show "(\<Sum>(s, e)\<leftarrow>zip ss es. s * (e - (spec_slope ss es * s + spec_intercept ss es))) = 0"
    unfolding residual_moment [OF assms(1)] by (simp add: P_def Q_def S_def m_def b_def)
qed

text \<open>
  The line of the closed form satisfies the normal equations, and so has the least sum
  of squared residuals.
\<close>

lemma least_squares:
  assumes "length ss = length es" "es \<noteq> []"
    and den: "real (length es) * (\<Sum>s\<leftarrow>ss. s * s) - sum_list ss * sum_list ss \<noteq> 0"
  shows "squared_error ss es (spec_slope ss es) (spec_intercept ss es) \<le> squared_error ss es m' b'"
proof -
  define m where "m = spec_slope ss es"
  define b where "b = spec_intercept ss es"
  have "squared_error ss es (m - (m - m')) (b - (b - b')) =
     squared_error ss es m b
     + 2 * (m - m') * (\<Sum>(s, e)\<leftarrow>zip ss es. s * (e - (m * s + b)))
     + 2 * (b - b') * (\<Sum>(s, e)\<leftarrow>zip ss es. e - (m * s + b))
     + (\<Sum>s\<leftarrow>ss. ((m - m') * s + (b - b')) * ((m - m') * s + (b - b')))"
    by (rule squared_error_shift [OF assms(1)])
  then have "squared_error ss es m' b' =
     squared_error ss es m b
     + (\<Sum>s\<leftarrow>ss. ((m - m') * s + (b - b')) * ((m - m') * s + (b - b')))"
    using normal_equations [OF assms] by (simp add: m_def b_def)
  moreover have "0 \<le> (\<Sum>s\<leftarrow>ss. ((m - m') * s + (b - b')) * ((m - m') * s + (b - b')))"
    by (rule sum_list_nonneg) auto
  ultimately show ?thesis by (simp add: m_def b_def)
qed

lemma of_int_sum_list: "sum_list (map real_of_int ks) = real_of_int (sum_list ks)"
  by (induction ks) simp_all

lemma of_int_sum_products:
  "(\<Sum>(s, e)\<leftarrow>zip (map real_of_int ks) (map real_of_int js). s * e) =
     real_of_int (\<Sum>(k, j)\<leftarrow>zip ks js. k * j)"
proof (induction ks arbitrary: js)
  case Nil
  then show ?case by simp
next
  case (Cons k ks)
  then show ?case by (cases js) simp_all
qed

lemma of_int_sum_squares:
  "(\<Sum>s\<leftarrow>map real_of_int ks. s * s) = real_of_int (\<Sum>k\<leftarrow>ks. k * k)"
  by (induction ks) simp_all

lemma sum_abs_le:
  "\<forall>k\<in>set ks. \<bar>k\<bar> \<le> M \<Longrightarrow> (\<Sum>k\<leftarrow>ks. \<bar>k::int\<bar>) \<le> int (length ks) * M"
  by (induction ks) (simp_all add: algebra_simps)

lemma sum_abs_products_le:
  assumes "\<forall>k\<in>set ks. \<bar>k\<bar> \<le> M" "\<forall>j\<in>set js. \<bar>j\<bar> \<le> M"
  shows "(\<Sum>(k, j)\<leftarrow>zip ks js. \<bar>k * j :: int\<bar>) \<le> int (length ks) * (M * M)"
  using assms
proof (induction ks arbitrary: js)
  case Nil
  then show ?case by simp
next
  case (Cons k ks)
  have M0: "0 \<le> M" using Cons.prems(1) by (smt (verit) list.set_intros(1))
  show ?case
  proof (cases js)
    case Nil
    then show ?thesis using M0 by simp
  next
    case (Cons j js')
    have "\<bar>k\<bar> \<le> M" "\<bar>j\<bar> \<le> M" using Cons.prems Cons by simp_all
    then have "\<bar>k\<bar> * \<bar>j\<bar> \<le> M * M" by (intro mult_mono) (simp_all add: M0)
    then have "\<bar>k * j\<bar> \<le> M * M" by (simp add: abs_mult)
    moreover have "(\<Sum>(k, j)\<leftarrow>zip ks js'. \<bar>k * j\<bar>) \<le> int (length ks) * (M * M)"
      using Cons.IH [of js'] Cons.prems Cons by simp
    ultimately show ?thesis by (simp add: Cons algebra_simps)
  qed
qed

lemma sum_abs_squares_le:
  assumes "\<forall>k\<in>set ks. \<bar>k\<bar> \<le> M"
  shows "(\<Sum>k\<leftarrow>ks. \<bar>k * k :: int\<bar>) \<le> int (length ks) * (M * M)"
proof -
  have "(\<Sum>(k, j)\<leftarrow>zip ks ks. \<bar>k * j\<bar>) = (\<Sum>k\<leftarrow>ks. \<bar>k * k\<bar>)"
    by (induction ks) simp_all
  then show ?thesis using sum_abs_products_le [OF assms assms] by simp
qed

subsection \<open>The fit is exact on small integers\<close>

lemma abs_mult_le: "\<bar>a\<bar> \<le> A \<Longrightarrow> \<bar>b\<bar> \<le> B \<Longrightarrow> \<bar>a * b :: int\<bar> \<le> A * B"
proof -
  assume a: "\<bar>a\<bar> \<le> A" and b: "\<bar>b\<bar> \<le> B"
  have "0 \<le> A" using a by (smt (verit))
  then have "\<bar>a\<bar> * \<bar>b\<bar> \<le> A * B" using a b by (intro mult_mono) simp_all
  then show ?thesis by (simp add: abs_mult)
qed

lemma abs_factor_le:
  assumes "x = q * d" "d \<noteq> 0"
  shows "\<bar>q :: int\<bar> \<le> \<bar>x\<bar>"
proof -
  have "1 \<le> \<bar>d\<bar>" using assms(2) by simp
  then have "\<bar>q\<bar> * 1 \<le> \<bar>q\<bar> * \<bar>d\<bar>" by (intro mult_left_mono) simp_all
  then show ?thesis by (simp add: assms(1) abs_mult)
qed

text \<open>
  With \<open>n\<close> scale factors and energies of absolute value at most \<open>M\<close> and
  \<open>n M \<le> 2\<^sup>1\<^sup>6\<close>, every sum, product and difference of the computation is an integer of
  absolute value at most \<open>2\<^sup>5\<^sup>3\<close>.
\<close>

lemma fit_zne_exact_on_integers:
  fixes ks js :: "int list"
  assumes sum: "\<forall>xs. adds_up xs (math_sum xs)"
    and len: "length js = length ks"
    and distinct: "\<exists>x\<in>set ks. \<exists>y\<in>set ks. x \<noteq> y"
    and bk: "\<forall>k\<in>set ks. \<bar>k\<bar> \<le> M" and bj: "\<forall>j\<in>set js. \<bar>j\<bar> \<le> M"
    and bW: "int (length ks) * M \<le> 2 ^ 16"
    and slope: "spec_slope (map of_int ks) (map of_int js) = of_int m"
    and icpt: "spec_intercept (map of_int ks) (map of_int js) = of_int b"
  shows "fit_zne math_sum (map Ffin ks) (map Ffin js) = Inr (Ffin b)"
proof -
  define n where "n = int (length js)"
  define S where "S = sum_list ks"
  define E where "E = sum_list js"
  define P where "P = (\<Sum>(k, j)\<leftarrow>zip ks js. k * j)"
  define Q where "Q = (\<Sum>k\<leftarrow>ks. k * k)"
  define W where "W = n * M"
  obtain x where "x \<in> set ks" using distinct by blast
  then have ne: "ks \<noteq> []" "js \<noteq> []" using len by auto
  have n1: "1 \<le> n" using ne(2) by (cases js) (simp_all add: n_def)
  have nk: "int (length ks) = n" using len by (simp add: n_def)
  have M0: "0 \<le> M" using bk \<open>x \<in> set ks\<close> by (smt (verit))
  have W: "W \<le> 65536" "0 \<le> W" using bW n1 M0 by (simp_all add: W_def nk)
  have nW: "n \<le> W \<or> M = 0" using n1 M0 by (cases "M = 0") (simp_all add: W_def)
  have WW: "W * W \<le> 4294967296"
    using mult_mono [OF W(1) W(1)] W(2) by simp
  have nMM: "n * (M * M) \<le> W * W"
  proof -
    have "n * (M * M) * 1 \<le> n * (M * M) * n" using n1 M0 by (intro mult_left_mono) simp_all
    then show ?thesis by (simp add: W_def algebra_simps)
  qed
  \<comment> \<open>the sums\<close>
  have sS: "(\<Sum>k\<leftarrow>ks. \<bar>k\<bar>) \<le> W" using sum_abs_le [OF bk] by (simp add: nk W_def)
  have sE: "(\<Sum>j\<leftarrow>js. \<bar>j\<bar>) \<le> W" using sum_abs_le [OF bj] by (simp add: n_def W_def)
  have sP: "(\<Sum>(k, j)\<leftarrow>zip ks js. \<bar>k * j\<bar>) \<le> W * W"
    using sum_abs_products_le [OF bk bj] nMM by (simp add: nk)
  have sQ: "(\<Sum>k\<leftarrow>ks. \<bar>k * k\<bar>) \<le> W * W"
    using sum_abs_squares_le [OF bk] nMM by (simp add: nk)
  have aS: "\<bar>S\<bar> \<le> W" using sum_list_abs [of ks] sS by (simp add: S_def)
  have aE: "\<bar>E\<bar> \<le> W" using sum_list_abs [of js] sE by (simp add: E_def)
  have "\<bar>P\<bar> \<le> (\<Sum>(k, j)\<leftarrow>zip ks js. \<bar>k * j\<bar>)"
    using sum_list_abs [of "map2 (*) ks js"] by (simp add: P_def comp_def case_prod_unfold)
  then have aP: "\<bar>P\<bar> \<le> n * (M * M)" using sum_abs_products_le [OF bk bj] by (simp add: nk)
  have "\<bar>Q\<bar> \<le> (\<Sum>k\<leftarrow>ks. \<bar>k * k\<bar>)"
    using sum_list_abs [of "map (\<lambda>k. k * k) ks"] by (simp add: Q_def comp_def)
  then have aQ: "\<bar>Q\<bar> \<le> n * (M * M)" using sum_abs_squares_le [OF bk] by (simp add: nk)
  have anP: "\<bar>n * P\<bar> \<le> W * W"
  proof -
    have "\<bar>n * P\<bar> \<le> n * (n * (M * M))" using abs_mult_le [of n n P "n * (M * M)"] n1 aP by simp
    then show ?thesis by (simp add: W_def algebra_simps)
  qed
  have anQ: "\<bar>n * Q\<bar> \<le> W * W"
  proof -
    have "\<bar>n * Q\<bar> \<le> n * (n * (M * M))" using abs_mult_le [of n n Q "n * (M * M)"] n1 aQ by simp
    then show ?thesis by (simp add: W_def algebra_simps)
  qed
  have aSE: "\<bar>S * E\<bar> \<le> W * W" using aS aE by (rule abs_mult_le)
  have aSS: "\<bar>S * S\<bar> \<le> W * W" using aS aS by (rule abs_mult_le)
  have anum: "\<bar>n * P - S * E\<bar> \<le> 8589934592" using anP aSE WW by linarith
  have aden: "\<bar>n * Q - S * S\<bar> \<le> 8589934592" using anQ aSS WW by linarith
  \<comment> \<open>the closed form over the reals\<close>
  have rden: "real (length (map real_of_int js)) * (\<Sum>s\<leftarrow>map real_of_int ks. s * s)
      - sum_list (map real_of_int ks) * sum_list (map real_of_int ks) = real_of_int (n * Q - S * S)"
    by (simp only: of_int_sum_list of_int_sum_squares length_map) (simp add: n_def S_def Q_def)
  have rnum: "real (length (map real_of_int js))
        * (\<Sum>(s, e)\<leftarrow>zip (map real_of_int ks) (map real_of_int js). s * e)
      - sum_list (map real_of_int ks) * sum_list (map real_of_int js) = real_of_int (n * P - S * E)"
    by (simp only: of_int_sum_list of_int_sum_products length_map)
       (simp add: n_def S_def E_def P_def)
  obtain x y where "x \<in> set ks" "y \<in> set ks" "x \<noteq> y" using distinct by blast
  then have "real_of_int x \<in> set (map real_of_int ks)" "real_of_int y \<in> set (map real_of_int ks)"
    "real_of_int x \<noteq> real_of_int y" by simp_all
  from denominator_pos [OF this]
  have "0 < real (length (map real_of_int ks)) * (\<Sum>s\<leftarrow>map real_of_int ks. s * s)
      - sum_list (map real_of_int ks) * sum_list (map real_of_int ks)" .
  then have "0 < real_of_int (n * Q - S * S)" using rden len by simp
  then have "0 < n * Q - S * S" by (simp only: of_int_0_less_iff)
  then have den: "n * Q - S * S \<noteq> 0" by simp
  have "real_of_int (n * P - S * E) / real_of_int (n * Q - S * S) = real_of_int m"
    using slope unfolding spec_slope_def rnum rden .
  moreover have "real_of_int (n * Q - S * S) \<noteq> 0" using den by (simp only: of_int_eq_0_iff) simp
  ultimately have "real_of_int (n * P - S * E) = real_of_int m * real_of_int (n * Q - S * S)"
    by (metis nonzero_divide_eq_eq)
  then have "real_of_int (n * P - S * E) = real_of_int (m * (n * Q - S * S))"
    by (simp only: of_int_mult)
  then have slope_int: "n * P - S * E = m * (n * Q - S * S)" by (simp only: of_int_eq_iff)
  have "(real_of_int E - real_of_int m * real_of_int S) / real_of_int n = real_of_int b"
    using icpt unfolding spec_intercept_def slope of_int_sum_list length_map
    by (simp add: n_def S_def E_def)
  moreover have "real_of_int n \<noteq> 0" using n1 by simp
  ultimately have "real_of_int E - real_of_int m * real_of_int S = real_of_int b * real_of_int n"
    by (metis nonzero_divide_eq_eq)
  then have "real_of_int (E - m * S) = real_of_int (b * n)"
    by (simp only: of_int_mult of_int_diff)
  then have icpt_int: "E - m * S = b * n" by (simp only: of_int_eq_iff)
  \<comment> \<open>the slope and the intercept\<close>
  have am: "\<bar>m\<bar> \<le> 8589934592"
    using abs_factor_le [OF slope_int den] anum by (rule order_trans)
  have aS': "\<bar>S\<bar> \<le> 65536" using aS W(1) by linarith
  have amS: "\<bar>m * S\<bar> \<le> 8589934592 * 65536"
    using am aS' by (rule abs_mult_le)
  have aE': "\<bar>E\<bar> \<le> 65536" using aE W(1) by linarith
  have "\<bar>E - m * S\<bar> \<le> 65536 + 8589934592 * 65536" using amS aE' by linarith
  then have arest: "\<bar>E - m * S\<bar> \<le> 2 ^ 53" by simp
  have n0: "n \<noteq> 0" using n1 by simp
  have ab: "\<bar>b\<bar> \<le> 2 ^ 53"
    using abs_factor_le [OF icpt_int n0] arest by (rule order_trans)
  have nb: "n \<le> 2 ^ 53"
  proof (cases "M = 0")
    case True
    then have z: "\<forall>k\<in>set ks. k = 0" using bk by simp
    from distinct obtain x y where xy: "x \<in> set ks" "y \<in> set ks" "x \<noteq> y" by blast
    from z xy(1,2) have "x = 0" "y = 0" by blast+
    with xy(3) have False by simp
    then show ?thesis ..
  next
    case False
    then have "n \<le> 65536" using nW W(1) by linarith
    then show ?thesis by simp
  qed
  show ?thesis
  proof (rule fit_zne_exact_core [OF sum len [symmetric] ne(2)])
    show "(\<Sum>k\<leftarrow>ks. \<bar>k\<bar>) \<le> 2 ^ 53" using sS W(1) by simp
    show "(\<Sum>j\<leftarrow>js. \<bar>j\<bar>) \<le> 2 ^ 53" using sE W(1) by simp
    show "(\<Sum>(k, j)\<leftarrow>zip ks js. \<bar>k * j\<bar>) \<le> 2 ^ 53" using sP WW by simp
    show "(\<Sum>k\<leftarrow>ks. \<bar>k * k\<bar>) \<le> 2 ^ 53" using sQ WW by simp
    show "int (length js) \<le> 2 ^ 53" using nb by (simp add: n_def)
    show "\<bar>int (length js) * (\<Sum>(k, j)\<leftarrow>zip ks js. k * j)\<bar> \<le> 2 ^ 53"
      using anP WW by (simp add: n_def P_def)
    show "\<bar>sum_list ks * sum_list js\<bar> \<le> 2 ^ 53" using aSE WW by (simp add: S_def E_def)
    show "\<bar>int (length js) * (\<Sum>(k, j)\<leftarrow>zip ks js. k * j) - sum_list ks * sum_list js\<bar> \<le> 2 ^ 53"
      using anum by (simp add: n_def P_def S_def E_def)
    show "\<bar>int (length js) * (\<Sum>k\<leftarrow>ks. k * k)\<bar> \<le> 2 ^ 53" using anQ WW by (simp add: n_def Q_def)
    show "\<bar>sum_list ks * sum_list ks\<bar> \<le> 2 ^ 53" using aSS WW by (simp add: S_def)
    show "\<bar>int (length js) * (\<Sum>k\<leftarrow>ks. k * k) - sum_list ks * sum_list ks\<bar> \<le> 2 ^ 53"
      using aden by (simp add: n_def Q_def S_def)
    show "int (length js) * (\<Sum>k\<leftarrow>ks. k * k) - sum_list ks * sum_list ks \<noteq> 0"
      using den by (simp add: n_def Q_def S_def)
    show "int (length js) * (\<Sum>(k, j)\<leftarrow>zip ks js. k * j) - sum_list ks * sum_list js =
        m * (int (length js) * (\<Sum>k\<leftarrow>ks. k * k) - sum_list ks * sum_list ks)"
      using slope_int by (simp add: n_def P_def Q_def S_def E_def)
    show "\<bar>m\<bar> \<le> 2 ^ 53" using am by simp
    show "\<bar>m * sum_list ks\<bar> \<le> 2 ^ 53" using amS by (simp add: S_def)
    show "\<bar>sum_list js - m * sum_list ks\<bar> \<le> 2 ^ 53" using arest by (simp add: S_def E_def)
    show "sum_list js - m * sum_list ks = b * int (length js)"
      using icpt_int by (simp add: n_def S_def E_def)
    show "\<bar>b\<bar> \<le> 2 ^ 53" by (rule ab)
  qed
qed

lemma spec_slope_linear_data:
  assumes "real (length ss) * (\<Sum>s\<leftarrow>ss. s * s) - sum_list ss * sum_list ss \<noteq> 0"
  shows "spec_slope ss (map (\<lambda>s. m * s + b) ss) = m"
proof -
  define n where "n = real (length ss)"
  define Q where "Q = (\<Sum>s\<leftarrow>ss. s * s)"
  define S where "S = sum_list ss"
  have den: "n * Q - S * S \<noteq> 0" using assms by (simp add: n_def Q_def S_def)
  have "n * (m * Q + b * S) - S * (m * S + n * b) = m * (n * Q - S * S)"
    by (simp add: algebra_simps)
  then have slope: "(n * (m * Q + b * S) - S * (m * S + n * b)) / (n * Q - S * S) = m"
    using den by simp
  show ?thesis
    unfolding spec_slope_def sum_list_affine sum_list_zip_affine length_map
    using slope by (simp only: n_def Q_def S_def)
qed

lemma spec_slope_linear:
  assumes "length ss = length es" "length es = length es'"
  shows "spec_slope ss (map2 (\<lambda>x y. a * x + b * y) es es') =
         a * spec_slope ss es + b * spec_slope ss es'"
proof -
  have len: "length (map2 (\<lambda>x y. a * x + b * y) es es') = length es"
    using assms by simp
  show ?thesis
    unfolding spec_slope_def len sum_list_zip_linear [OF assms] sum_list_map2_linear [OF assms(2)]
    using assms(2) by (simp add: algebra_simps add_divide_distrib diff_divide_distrib)
qed

lemma real_denominator_nonzero:
  fixes ks :: "int list"
  assumes "\<exists>x\<in>set ks. \<exists>y\<in>set ks. x \<noteq> y"
  shows "real (length (map real_of_int ks)) * (\<Sum>s\<leftarrow>map real_of_int ks. s * s)
      - sum_list (map real_of_int ks) * sum_list (map real_of_int ks) \<noteq> 0"
proof -
  obtain x y where "x \<in> set ks" "y \<in> set ks" "x \<noteq> y" using assms by blast
  then have "real_of_int x \<in> set (map real_of_int ks)" "real_of_int y \<in> set (map real_of_int ks)"
    "real_of_int x \<noteq> real_of_int y" by simp_all
  from denominator_pos [OF this] show ?thesis by simp
qed

lemma of_int_affine:
  "map real_of_int (map (\<lambda>k. m * k + b) ks) = map (\<lambda>s. of_int m * s + of_int b) (map real_of_int ks)"
  by (induction ks) simp_all

lemma of_int_mix:
  "map real_of_int (map2 (\<lambda>x y. a * x + c * y) js js') =
     map2 (\<lambda>x y. of_int a * x + of_int c * y) (map real_of_int js) (map real_of_int js')"
proof (induction js arbitrary: js')
  case Nil
  then show ?case by simp
next
  case (Cons j js)
  then show ?case by (cases js') simp_all
qed

lemma fit_zne_exact_linear_data:
  fixes ks :: "int list"
  assumes "\<forall>xs. adds_up xs (math_sum xs)"
    and "\<exists>x\<in>set ks. \<exists>y\<in>set ks. x \<noteq> y"
    and "\<forall>k\<in>set ks. \<bar>k\<bar> \<le> M" "\<forall>k\<in>set ks. \<bar>m * k + b\<bar> \<le> M"
    and "int (length ks) * M \<le> 2 ^ 16"
  shows "fit_zne math_sum (map Ffin ks) (map Ffin (map (\<lambda>k. m * k + b) ks)) = Inr (Ffin b)"
proof -
  note den = real_denominator_nonzero [OF assms(2)]
  have ne: "map real_of_int ks \<noteq> []" using assms(2) by auto
  have "spec_slope (map of_int ks) (map of_int (map (\<lambda>k. m * k + b) ks)) = of_int m"
    unfolding of_int_affine using den by (rule spec_slope_linear_data)
  moreover have "spec_intercept (map of_int ks) (map of_int (map (\<lambda>k. m * k + b) ks)) = of_int b"
    unfolding of_int_affine using den ne by (rule spec_intercept_linear_data)
  moreover have "\<forall>j\<in>set (map (\<lambda>k. m * k + b) ks). \<bar>j\<bar> \<le> M" using assms(4) by simp
  ultimately show ?thesis
    using fit_zne_exact_on_integers [OF assms(1) _ assms(2,3) _ assms(5), of "map (\<lambda>k. m * k + b) ks" m b]
    by simp
qed

text \<open>
  Claim C2, as the code has it. The closed form is evaluated in float64 and every
  operation rounds, so that the value returned is the intercept of the least-squares
  line up to rounding only. It is the intercept itself when the data are integer-valued
  floats small enough for every intermediate result to be exact. For at least two scale
  factors, not all identical, and as many energies, all integers of absolute value at
  most \<open>M\<close> with \<open>n M \<le> 2\<^sup>1\<^sup>6\<close>, and any order of summation: when the slope and the
  intercept of the closed form are integers, the intercept is returned; exactly linear
  data \<open>e\<^sub>i = m s\<^sub>i + b\<close> are returned \<open>b\<close>; and the line of the closed form has the least sum
  of squared residuals among all lines. The claim as stated has the intercept returned
  for all data. The exactly linear energies \<open>1\<close> and \<open>1 + 2\<^sup>-\<^sup>5\<^sup>2\<close> on the scale factors 0 and 1
  are returned \<open>1 - 2\<^sup>-\<^sup>5\<^sup>2\<close>, not 1; the energies 1 and 2 on the scale factors \<open>10\<^sup>8\<close> and
  \<open>10\<^sup>8 + 1\<close> are returned minus infinity.
\<close>

theorem fit_zne_integer_data:
  fixes ks js :: "int list"
  assumes "\<forall>xs. adds_up xs (math_sum xs)"
    and "2 \<le> length ks" "length js = length ks" "\<exists>x\<in>set ks. \<exists>y\<in>set ks. x \<noteq> y"
    and "\<forall>k\<in>set ks. \<bar>k\<bar> \<le> M" "\<forall>j\<in>set js. \<bar>j\<bar> \<le> M" "int (length ks) * M \<le> 2 ^ 16"
  shows "(spec_slope (map of_int ks) (map of_int js) = of_int m \<and>
          spec_intercept (map of_int ks) (map of_int js) = of_int b \<longrightarrow>
            fit_zne math_sum (map Ffin ks) (map Ffin js) = Inr (Ffin b)) \<and>
         (js = map (\<lambda>k. m * k + b) ks \<longrightarrow>
            fit_zne math_sum (map Ffin ks) (map Ffin js) = Inr (Ffin b)) \<and>
         squared_error (map of_int ks) (map of_int js)
             (spec_slope (map of_int ks) (map of_int js))
             (spec_intercept (map of_int ks) (map of_int js))
           \<le> squared_error (map of_int ks) (map of_int js) m' b'"
proof (intro conjI impI)
  assume "spec_slope (map of_int ks) (map of_int js) = of_int m \<and>
          spec_intercept (map of_int ks) (map of_int js) = of_int b"
  then show "fit_zne math_sum (map Ffin ks) (map Ffin js) = Inr (Ffin b)"
    using fit_zne_exact_on_integers [OF assms(1,3,4,5,6,7), of m b] by blast
next
  assume js: "js = map (\<lambda>k. m * k + b) ks"
  have "\<forall>k\<in>set ks. \<bar>m * k + b\<bar> \<le> M" using assms(6) by (simp add: js)
  from fit_zne_exact_linear_data [OF assms(1,4,5) this assms(7)]
  show "fit_zne math_sum (map Ffin ks) (map Ffin js) = Inr (Ffin b)" by (simp only: js)
next
  have "map real_of_int js \<noteq> []" using assms(2,3) by auto
  moreover have "length (map real_of_int ks) = length (map real_of_int js)" using assms(3) by simp
  moreover have "real (length (map real_of_int js)) * (\<Sum>s\<leftarrow>map real_of_int ks. s * s)
      - sum_list (map real_of_int ks) * sum_list (map real_of_int ks) \<noteq> 0"
    using real_denominator_nonzero [OF assms(4)] assms(3) by simp
  ultimately show "squared_error (map of_int ks) (map of_int js)
             (spec_slope (map of_int ks) (map of_int js))
             (spec_intercept (map of_int ks) (map of_int js))
           \<le> squared_error (map of_int ks) (map of_int js) m' b'"
    by (intro least_squares)
qed

theorem fit_zne_rounding_counterexample:
  "fit_zne sequential_sum [F (Fin 0), F (Fin 1)] [F (Fin 1), F (Fin (1 + 1 / 2 ^ 52))] =
     Inr (F (Fin (1 - 1 / 2 ^ 52))) \<and>
   [1, 1 + 1 / 2 ^ 52] = map (\<lambda>s. 1 / 2 ^ 52 * s + 1) [0, 1 :: real] \<and>
   (1 - 1 / 2 ^ 52 :: real) \<noteq> 1 \<and>
   fit_zne sequential_sum [F (Fin 100000000), F (Fin 100000001)] [F (Fin 1), F (Fin 2)] =
     Inr (F NInf)"
  by (simp add: fit_eval round_small round_example_1 round_example_3 round_example_4
      round_example_7 round_example_8 round_example_9 round_example_22 round_example_23
      round_example_24 round_example_25 round_example_26)

theorem fit_zne_integer_data_witness:
  "fit_zne sequential_sum [F (Fin 1), F (Fin 3), F (Fin 5), F (Fin 7), F (Fin 9)]
     [F (Fin 7), F (Fin 11), F (Fin 15), F (Fin 19), F (Fin 23)] = Inr (F (Fin 5))"
proof -
  have h1: "\<forall>xs. adds_up xs (sequential_sum xs)" by (simp add: sequential_sum_adds_up)
  have h2: "2 \<le> length [1, 3, 5, 7, 9 :: int]" by simp
  have h3: "length [7, 11, 15, 19, 23 :: int] = length [1, 3, 5, 7, 9 :: int]" by simp
  have h4: "\<exists>x\<in>set [1, 3, 5, 7, 9 :: int]. \<exists>y\<in>set [1, 3, 5, 7, 9 :: int]. x \<noteq> y"
    by (rule bexI [of _ 1], rule bexI [of _ 3]) simp_all
  have h5: "\<forall>k\<in>set [1, 3, 5, 7, 9 :: int]. \<bar>k\<bar> \<le> 23" by simp
  have h6: "\<forall>j\<in>set [7, 11, 15, 19, 23 :: int]. \<bar>j\<bar> \<le> 23" by simp
  have h7: "int (length [1, 3, 5, 7, 9 :: int]) * 23 \<le> 2 ^ 16" by simp
  have lin: "[7, 11, 15, 19, 23] = map (\<lambda>k. 2 * k + 5) [1, 3, 5, 7, 9 :: int]" by simp
  from fit_zne_integer_data [OF h1 h2 h3 h4 h5 h6 h7, where m = 2 and b = 5,
      THEN conjunct2, THEN conjunct1, THEN mp, OF lin]
  show ?thesis by simp
qed

subsection \<open>Linearity in the energies\<close>

text \<open>
  Claim C10, as the code has it. In float64 the fit is linear in the energies up to
  rounding only. It is linear where it is exact: for at least two integer scale factors,
  not all identical, integer energies \<open>e\<close>, \<open>e'\<close> and integers \<open>a\<close>, \<open>c\<close> such that the scale
  factors, \<open>e\<close>, \<open>e'\<close> and \<open>a e + c e'\<close> are of absolute value at most \<open>M\<close> with
  \<open>n M \<le> 2\<^sup>1\<^sup>6\<close>, and the fits of \<open>e\<close> and of \<open>e'\<close> have integer slopes and intercepts, the fit
  of \<open>a e + c e'\<close> is \<open>a\<close> times the fit of \<open>e\<close> plus \<open>c\<close> times the fit of \<open>e'\<close>, in any order
  of summation. The claim as stated has this for all scalars and energies. On the scale
  factors 1, 3, 5 the energies 0, 1, 0 are fitted the float64 nearest to a third, and
  the energies 0, 5, 0 a value that is neither five times that float nor the float64
  product of 5 and that float.
\<close>

theorem fit_zne_linear_on_integers:
  fixes ks js js' :: "int list"
  assumes "\<forall>xs. adds_up xs (math_sum xs)"
    and "2 \<le> length ks" "length js = length ks" "length js' = length ks"
    and "\<exists>x\<in>set ks. \<exists>y\<in>set ks. x \<noteq> y"
    and "\<forall>k\<in>set ks. \<bar>k\<bar> \<le> M" "\<forall>j\<in>set js. \<bar>j\<bar> \<le> M" "\<forall>j\<in>set js'. \<bar>j\<bar> \<le> M"
    and "\<forall>j\<in>set (map2 (\<lambda>x y. a * x + c * y) js js'). \<bar>j\<bar> \<le> M"
    and "int (length ks) * M \<le> 2 ^ 16"
    and "spec_slope (map of_int ks) (map of_int js) = of_int m"
    and "spec_intercept (map of_int ks) (map of_int js) = of_int b"
    and "spec_slope (map of_int ks) (map of_int js') = of_int m'"
    and "spec_intercept (map of_int ks) (map of_int js') = of_int b'"
  shows "fit_zne math_sum (map Ffin ks) (map Ffin js) = Inr (Ffin b) \<and>
         fit_zne math_sum (map Ffin ks) (map Ffin js') = Inr (Ffin b') \<and>
         fit_zne math_sum (map Ffin ks) (map Ffin (map2 (\<lambda>x y. a * x + c * y) js js')) =
           Inr (Ffin (a * b + c * b'))"
proof -
  let ?mix = "map2 (\<lambda>x y. a * x + c * y) js js'"
  have l1: "length (map real_of_int ks) = length (map real_of_int js)" using assms(3) by simp
  have l2: "length (map real_of_int js) = length (map real_of_int js')" using assms(3,4) by simp
  have "spec_slope (map of_int ks) (map of_int ?mix) = of_int (a * m + c * m')"
    unfolding of_int_mix spec_slope_linear [OF l1 l2] assms(11,13) by simp
  moreover have "spec_intercept (map of_int ks) (map of_int ?mix) = of_int (a * b + c * b')"
    unfolding of_int_mix spec_intercept_linear [OF l1 l2] assms(12,14) by simp
  moreover have "length ?mix = length ks" using assms(3,4) by simp
  ultimately have "fit_zne math_sum (map Ffin ks) (map Ffin ?mix) = Inr (Ffin (a * b + c * b'))"
    using fit_zne_exact_on_integers [OF assms(1) _ assms(5,6,9,10), of "a * m + c * m'" "a * b + c * b'"]
    by simp
  moreover have "fit_zne math_sum (map Ffin ks) (map Ffin js) = Inr (Ffin b)"
    using assms(1,3,5,6,7,10,11,12) by (rule fit_zne_exact_on_integers)
  moreover have "fit_zne math_sum (map Ffin ks) (map Ffin js') = Inr (Ffin b')"
    using assms(1,4,5,6,8,10,13,14) by (rule fit_zne_exact_on_integers)
  ultimately show ?thesis by simp
qed

theorem fit_zne_nonlinear_counterexample:
  "fit_zne sequential_sum [F (Fin 1), F (Fin 3), F (Fin 5)] [F (Fin 0), F (Fin 1), F (Fin 0)] =
     Inr (F (Fin (6004799503160661 / 2 ^ 54))) \<and>
   fit_zne sequential_sum [F (Fin 1), F (Fin 3), F (Fin 5)] [F (Fin 0), F (Fin 5), F (Fin 0)] =
     Inr (F (Fin (7505999378950827 / 2 ^ 52))) \<and>
   [0, 5, 0] = map2 (\<lambda>x y. 5 * x + 0 * y) [0, 1, 0] [0, 1, 0 :: real] \<and>
   (7505999378950827 / 2 ^ 52 :: real) \<noteq> 5 * (6004799503160661 / 2 ^ 54) + 0 * (6004799503160661 / 2 ^ 54) \<and>
   fmul (Fin 5) (Fin (6004799503160661 / 2 ^ 54)) = Fin (7505999378950826 / 2 ^ 52)"
  by (simp add: fit_eval round_small round_example_2 round_example_5 round_example_6)

theorem fit_zne_linear_on_integers_witness:
  "fit_zne sequential_sum [F (Fin 1), F (Fin 3), F (Fin 5)] [F (Fin 7), F (Fin 11), F (Fin 15)] =
     Inr (F (Fin 5)) \<and>
   fit_zne sequential_sum [F (Fin 1), F (Fin 3), F (Fin 5)] [F (Fin 1), F (Fin 1), F (Fin 1)] =
     Inr (F (Fin 1)) \<and>
   fit_zne sequential_sum [F (Fin 1), F (Fin 3), F (Fin 5)] [F (Fin 17), F (Fin 25), F (Fin 33)] =
     Inr (F (Fin (2 * 5 + 3 * 1)))"
proof -
  have h1: "\<forall>xs. adds_up xs (sequential_sum xs)" by (simp add: sequential_sum_adds_up)
  have h2: "2 \<le> length [1, 3, 5 :: int]" by simp
  have h3: "length [7, 11, 15 :: int] = length [1, 3, 5 :: int]" by simp
  have h4: "length [1, 1, 1 :: int] = length [1, 3, 5 :: int]" by simp
  have h5: "\<exists>x\<in>set [1, 3, 5 :: int]. \<exists>y\<in>set [1, 3, 5 :: int]. x \<noteq> y"
    by (rule bexI [of _ 1], rule bexI [of _ 3]) simp_all
  have h6: "\<forall>k\<in>set [1, 3, 5 :: int]. \<bar>k\<bar> \<le> 33" by simp
  have h7: "\<forall>j\<in>set [7, 11, 15 :: int]. \<bar>j\<bar> \<le> 33" by simp
  have h8: "\<forall>j\<in>set [1, 1, 1 :: int]. \<bar>j\<bar> \<le> 33" by simp
  have h9: "\<forall>j\<in>set (map2 (\<lambda>x y. 2 * x + 3 * y) [7, 11, 15] [1, 1, 1 :: int]). \<bar>j\<bar> \<le> 33" by simp
  have h10: "int (length [1, 3, 5 :: int]) * 33 \<le> 2 ^ 16" by simp
  have h11: "spec_slope (map of_int [1, 3, 5]) (map of_int [7, 11, 15]) = of_int 2"
    by (simp add: spec_slope_def)
  have h12: "spec_intercept (map of_int [1, 3, 5]) (map of_int [7, 11, 15]) = of_int 5"
    by (simp add: spec_intercept_def spec_slope_def)
  have h13: "spec_slope (map of_int [1, 3, 5]) (map of_int [1, 1, 1]) = of_int 0"
    by (simp add: spec_slope_def)
  have h14: "spec_intercept (map of_int [1, 3, 5]) (map of_int [1, 1, 1]) = of_int 1"
    by (simp add: spec_intercept_def spec_slope_def)
  from fit_zne_linear_on_integers [OF h1 h2 h3 h4 h5 h6 h7 h8 h9 h10 h11 h12 h13 h14]
  show ?thesis by simp
qed

subsection \<open>Identical scale factors\<close>

text \<open>
  The denominator of integer-valued float scale factors is computed exactly.
\<close>

lemma denominator_exact:
  fixes ks :: "int list"
  assumes sum: "\<forall>xs. adds_up xs (math_sum xs)" and ne: "ks \<noteq> []"
    and bk: "\<forall>k\<in>set ks. \<bar>k\<bar> \<le> M" and M1: "1 \<le> M"
    and bW: "int (length ks) * M \<le> 2 ^ 16"
  shows "denominator math_sum (length ks) (map Ffin ks) =
           Ffin (int (length ks) * (\<Sum>k\<leftarrow>ks. k * k) - sum_list ks * sum_list ks)"
proof -
  define n where "n = int (length ks)"
  define S where "S = sum_list ks"
  define Q where "Q = (\<Sum>k\<leftarrow>ks. k * k)"
  define W where "W = n * M"
  have n1: "1 \<le> n" using ne by (cases ks) (simp_all add: n_def)
  have M0: "0 \<le> M" using M1 by simp
  have W: "W \<le> 65536" "0 \<le> W" using bW n1 M0 by (simp_all add: W_def n_def)
  have WW: "W * W \<le> 4294967296" using mult_mono [OF W(1) W(1)] W(2) by simp
  have nMM: "n * (M * M) \<le> W * W"
  proof -
    have "n * (M * M) * 1 \<le> n * (M * M) * n" using n1 M0 by (intro mult_left_mono) simp_all
    then show ?thesis by (simp add: W_def algebra_simps)
  qed
  have sS: "(\<Sum>k\<leftarrow>ks. \<bar>k\<bar>) \<le> W" using sum_abs_le [OF bk] by (simp add: n_def W_def)
  have sQ: "(\<Sum>k\<leftarrow>ks. \<bar>k * k\<bar>) \<le> W * W"
    using sum_abs_squares_le [OF bk] nMM by (simp add: n_def)
  have aS: "\<bar>S\<bar> \<le> W" using sum_list_abs [of ks] sS by (simp add: S_def)
  have "\<bar>Q\<bar> \<le> (\<Sum>k\<leftarrow>ks. \<bar>k * k\<bar>)"
    using sum_list_abs [of "map (\<lambda>k. k * k) ks"] by (simp add: Q_def comp_def)
  then have aQ: "\<bar>Q\<bar> \<le> n * (M * M)" using sum_abs_squares_le [OF bk] by (simp add: n_def)
  have "\<bar>n * Q\<bar> \<le> n * (n * (M * M))" using abs_mult_le [of n n Q "n * (M * M)"] n1 aQ by simp
  then have anQ: "\<bar>n * Q\<bar> \<le> W * W" by (simp add: W_def algebra_simps)
  have aSS: "\<bar>S * S\<bar> \<le> W * W" using aS aS by (rule abs_mult_le)
  have b1: "(\<Sum>k\<leftarrow>ks. \<bar>k\<bar>) \<le> 2 ^ 53" using sS W(1) by simp
  have b2: "(\<Sum>k\<leftarrow>ks. \<bar>k * k\<bar>) \<le> 2 ^ 53" using sQ WW by simp
  have "n * 1 \<le> n * M" using n1 M1 by (intro mult_left_mono) simp_all
  then have "n \<le> 65536" using W(1) by (simp add: W_def)
  then have b3: "\<bar>n\<bar> \<le> 2 ^ 53" using n1 by simp
  have b4: "\<bar>n * Q\<bar> \<le> 2 ^ 53" using anQ WW by simp
  have b5: "\<bar>S * S\<bar> \<le> 2 ^ 53" using aSS WW by simp
  have b6: "\<bar>n * Q - S * S\<bar> \<le> 2 ^ 53"
  proof -
    have "\<bar>n * Q - S * S\<bar> \<le> W * W + W * W"
      using abs_triangle_ineq4 [of "n * Q" "S * S"] anQ aSS by linarith
    then show ?thesis using WW by simp
  qed
  have sumS: "array_sum math_sum (map Ffin ks) = Ffin S"
    unfolding S_def using sum ne b1 by (rule array_sum_floats)
  have sqne: "map (\<lambda>k. k * k) ks \<noteq> []" using ne by simp
  have bQ': "(\<Sum>q\<leftarrow>map (\<lambda>k. k * k) ks. \<bar>q\<bar>) \<le> 2 ^ 53" using b2 by (simp add: comp_def)
  have "array_sum math_sum (map Ffin (map (\<lambda>k. k * k) ks)) = Ffin (sum_list (map (\<lambda>k. k * k) ks))"
    using sum sqne bQ' by (rule array_sum_floats)
  then have sumQ: "array_sum math_sum (map (\<lambda>s. smul s s) (map Ffin ks)) = Ffin Q"
    by (simp only: squares_floats [OF b2] Q_def)
  show ?thesis
    unfolding denominator_def sumQ sumS n_def [symmetric] S_def [symmetric] Q_def [symmetric]
    by (simp only: smul_I_F [OF b3 b4] smul_F_F [OF b5] ssub_F_F [OF b6])
qed

lemma denominator_identical_floats:
  assumes sum: "\<forall>xs. adds_up xs (math_sum xs)" and pos: "0 < n"
    and bW: "int n * max 1 \<bar>c\<bar> \<le> 2 ^ 16"
  shows "denominator math_sum n (stacked (replicate n (Ffin c))) = F (Fin 0)"
proof -
  let ?ks = "replicate n c"
  have ne: "?ks \<noteq> []" using pos by simp
  have bk: "\<forall>k\<in>set ?ks. \<bar>k\<bar> \<le> max 1 \<bar>c\<bar>" by simp
  have bW': "int (length ?ks) * max 1 \<bar>c\<bar> \<le> 2 ^ 16" using bW by simp
  have "denominator math_sum (length ?ks) (map Ffin ?ks) =
          Ffin (int (length ?ks) * (\<Sum>k\<leftarrow>?ks. k * k) - sum_list ?ks * sum_list ?ks)"
    using sum ne bk _ bW' by (rule denominator_exact) simp
  moreover have "stacked (replicate n (Ffin c)) = map Ffin ?ks"
    using stacked_floats [of ?ks] by simp
  ultimately show ?thesis by (simp add: sum_list_replicate map_replicate_const)
qed

lemma wrap64_zero: "wrap64 0 = 0"
  by (simp add: wrap64_def)

lemma wrap64_cong:
  assumes "a mod 2 ^ 64 = b mod 2 ^ 64"
  shows "wrap64 a = wrap64 b"
proof -
  have "(a + 2 ^ 63) mod 2 ^ 64 = (b + 2 ^ 63) mod 2 ^ 64"
    using assms refl by (rule mod_add_cong)
  then show ?thesis unfolding wrap64_def by (rule arg_cong)
qed

lemma wrap64_mod: "wrap64 a mod 2 ^ 64 = a mod 2 ^ 64"
proof -
  have "((a + 2 ^ 63) mod 2 ^ 64 - 2 ^ 63) mod 2 ^ 64 = (a + 2 ^ 63 - 2 ^ 63) mod 2 ^ 64"
    by (rule mod_diff_left_eq)
  then show ?thesis unfolding wrap64_def by simp
qed

text \<open>
  An int64 sum is the exact sum modulo \<open>2\<^sup>6\<^sup>4\<close>, so that the denominator of identical
  integers is zero even where the squares wrap around.
\<close>

lemma foldl_sadd_int:
  "\<exists>r. foldl sadd (I a) (map I ks) = I r \<and> r mod 2 ^ 64 = (a + sum_list ks) mod 2 ^ 64"
proof (induction ks arbitrary: a)
  case Nil
  show ?case by simp
next
  case (Cons k ks)
  obtain r where r: "foldl sadd (I (wrap64 (a + k))) (map I ks) = I r"
    and rm: "r mod 2 ^ 64 = (wrap64 (a + k) + sum_list ks) mod 2 ^ 64"
    using Cons.IH [of "wrap64 (a + k)"] by blast
  have "(wrap64 (a + k) + sum_list ks) mod 2 ^ 64 = (a + k + sum_list ks) mod 2 ^ 64"
    using wrap64_mod refl by (rule mod_add_cong)
  then have "r mod 2 ^ 64 = (a + sum_list (k # ks)) mod 2 ^ 64"
    using rm by (simp only: sum_list.Cons add.assoc)
  moreover have "foldl sadd (I a) (map I (k # ks)) = I r" using r by simp
  ultimately show ?case by blast
qed

lemma array_sum_ints:
  "\<exists>r. array_sum math_sum (map I ks) = I r \<and> r mod 2 ^ 64 = sum_list ks mod 2 ^ 64"
proof -
  have "list_all is_int (map I ks)" by (induction ks) simp_all
  then show ?thesis using foldl_sadd_int [of 0 ks] by (simp add: array_sum_def)
qed

lemma denominator_identical_ints:
  "denominator math_sum n (stacked (replicate n (I c))) = I 0"
proof -
  have st: "stacked (replicate n (I c)) = map I (replicate n c)"
    by (simp add: stacked_def list_all_length)
  have sq: "map (\<lambda>s. smul s s) (map I (replicate n c)) = map I (replicate n (wrap64 (c * c)))"
    by simp
  obtain q where q: "array_sum math_sum (map I (replicate n (wrap64 (c * c)))) = I q"
    and qm: "q mod 2 ^ 64 = sum_list (replicate n (wrap64 (c * c))) mod 2 ^ 64"
    using array_sum_ints by blast
  obtain s where s: "array_sum math_sum (map I (replicate n c)) = I s"
    and sm: "s mod 2 ^ 64 = sum_list (replicate n c) mod 2 ^ 64"
    using array_sum_ints by blast
  have "(int n * wrap64 (c * c)) mod 2 ^ 64 = (int n * (c * c)) mod 2 ^ 64"
    using refl wrap64_mod by (rule mod_mult_cong)
  then have q': "q mod 2 ^ 64 = (int n * (c * c)) mod 2 ^ 64"
    using qm by (simp only: sum_list_replicate)
  have s': "s mod 2 ^ 64 = (int n * c) mod 2 ^ 64"
    using sm by (simp only: sum_list_replicate)
  have nq: "(int n * q) mod 2 ^ 64 = (int n * (int n * (c * c))) mod 2 ^ 64"
    using refl q' by (rule mod_mult_cong)
  have ss: "(s * s) mod 2 ^ 64 = (int n * c * (int n * c)) mod 2 ^ 64"
    using s' s' by (rule mod_mult_cong)
  have "(wrap64 (int n * q) - wrap64 (s * s)) mod 2 ^ 64 = (int n * q - s * s) mod 2 ^ 64"
    using wrap64_mod wrap64_mod by (rule mod_diff_cong)
  also have "\<dots> = (int n * (int n * (c * c)) - int n * c * (int n * c)) mod 2 ^ 64"
    using nq ss by (rule mod_diff_cong)
  also have "int n * (int n * (c * c)) - int n * c * (int n * c) = 0" by (simp add: algebra_simps)
  finally have "wrap64 (wrap64 (int n * q) - wrap64 (s * s)) = wrap64 0" by (rule wrap64_cong)
  then have "ssub (smul (I (int n)) (I q)) (smul (I s) (I s)) = I 0"
    by (simp only: smul.simps ssub.simps wrap64_zero)
  then show ?thesis
    unfolding denominator_def st sq q s .
qed

text \<open>
  Claim C1, as the code has it. \<open>fit_zne\<close> has no guard on the denominator and defines no
  exception: for scale factors and energies of one length, at least one, it returns a
  float, and when the computed denominator is zero that float is NaN or an infinity.
  The computed denominator is zero for scale factors that are one integer, whatever it
  is, and for scale factors that are one integer-valued float \<open>c\<close> with
  \<open>n max(1, |c|) \<le> 2\<^sup>1\<^sup>6\<close>, in any order of summation. The claim as stated asks for an
  exception. The scale factors 2, 2, 2 with the energies 1, 2, 3 are returned NaN, as
  floats and as integers; the scale factors 0.3, 0.3, 0.3, whose computed denominator is
  not zero, are returned 2 with the same energies.
\<close>

theorem fit_zne_identical_scales:
  assumes "length scale_factors = length energies" and "energies \<noteq> []"
  shows "(\<exists>v. fit_zne math_sum scale_factors energies = Inr (F v) \<and>
            (denominator math_sum (length energies) (stacked scale_factors) = I 0 \<or>
             denominator math_sum (length energies) (stacked scale_factors) = F (Fin 0)
               \<longrightarrow> nonfinite v)) \<and>
         (scale_factors = replicate (length energies) (I c) \<longrightarrow>
            denominator math_sum (length energies) (stacked scale_factors) = I 0) \<and>
         ((\<forall>xs. adds_up xs (math_sum xs)) \<and>
          scale_factors = replicate (length energies) (F (Fin (of_int c))) \<and>
          int (length energies) * max 1 \<bar>c\<bar> \<le> 2 ^ 16 \<longrightarrow>
            denominator math_sum (length energies) (stacked scale_factors) = F (Fin 0))"
proof (intro conjI impI)
  show "\<exists>v. fit_zne math_sum scale_factors energies = Inr (F v) \<and>
            (denominator math_sum (length energies) (stacked scale_factors) = I 0 \<or>
             denominator math_sum (length energies) (stacked scale_factors) = F (Fin 0)
               \<longrightarrow> nonfinite v)"
    using assms by (rule fit_zne_zero_denominator)
next
  assume "scale_factors = replicate (length energies) (I c)"
  then show "denominator math_sum (length energies) (stacked scale_factors) = I 0"
    using denominator_identical_ints [of math_sum "length energies" c] by simp
next
  assume h: "(\<forall>xs. adds_up xs (math_sum xs)) \<and>
          scale_factors = replicate (length energies) (F (Fin (of_int c))) \<and>
          int (length energies) * max 1 \<bar>c\<bar> \<le> 2 ^ 16"
  have "0 < length energies" using assms(2) by simp
  with h show "denominator math_sum (length energies) (stacked scale_factors) = F (Fin 0)"
    using denominator_identical_floats [of math_sum "length energies" c] by simp
qed

theorem fit_zne_degenerate_counterexample:
  "fit_zne sequential_sum [F (Fin 2), F (Fin 2), F (Fin 2)] [F (Fin 1), F (Fin 2), F (Fin 3)] =
     Inr (F NaN) \<and>
   fit_zne sequential_sum [I 2, I 2, I 2] [I 1, I 2, I 3] = Inr (F NaN) \<and>
   fit_zne sequential_sum
     [F (Fin (5404319552844595 / 2 ^ 54)), F (Fin (5404319552844595 / 2 ^ 54)),
      F (Fin (5404319552844595 / 2 ^ 54))] [F (Fin 1), F (Fin 2), F (Fin 3)] = Inr (F (Fin 2))"
  by (simp add: fit_eval round_small wrap64_def round_example_10 round_example_11
      round_example_12 round_example_13 round_example_14 round_example_15 round_example_16
      round_example_17 round_example_18 round_example_19 round_example_20 round_example_21)

theorem fit_zne_identical_scales_witness:
  "\<exists>v. fit_zne sequential_sum [F (Fin 2), F (Fin 2), F (Fin 2)]
         [F (Fin 4), F (Fin 5), F (Fin 7)] = Inr (F v) \<and> nonfinite v"
proof -
  have len: "length [F (Fin 2), F (Fin 2), F (Fin 2)] = length [F (Fin 4), F (Fin 5), F (Fin 7)]"
    by simp
  have ne: "[F (Fin 4), F (Fin 5), F (Fin 7)] \<noteq> []" by simp
  have rep: "[F (Fin 2), F (Fin 2), F (Fin 2)] =
      replicate (length [F (Fin 4), F (Fin 5), F (Fin 7)]) (F (Fin (of_int 2)))"
    by (simp add: numeral_3_eq_3)
  have bnd: "int (length [F (Fin 4), F (Fin 5), F (Fin 7)]) * max 1 \<bar>2\<bar> \<le> 2 ^ 16" by simp
  have sum: "\<forall>xs. adds_up xs (sequential_sum xs)" by (simp add: sequential_sum_adds_up)
  note main = fit_zne_identical_scales [OF len ne, where math_sum = sequential_sum and c = 2]
  from main have zero: "denominator sequential_sum (length [F (Fin 4), F (Fin 5), F (Fin 7)])
      (stacked [F (Fin 2), F (Fin 2), F (Fin 2)]) = F (Fin 0)"
    using sum rep bnd by blast
  from main obtain v where
    "fit_zne sequential_sum [F (Fin 2), F (Fin 2), F (Fin 2)] [F (Fin 4), F (Fin 5), F (Fin 7)] = Inr (F v)"
    "denominator sequential_sum (length [F (Fin 4), F (Fin 5), F (Fin 7)])
        (stacked [F (Fin 2), F (Fin 2), F (Fin 2)]) = I 0 \<or>
     denominator sequential_sum (length [F (Fin 4), F (Fin 5), F (Fin 7)])
        (stacked [F (Fin 2), F (Fin 2), F (Fin 2)]) = F (Fin 0) \<longrightarrow> nonfinite v"
    by blast
  with zero show ?thesis by blast
qed

section \<open>Properties of the batch transform\<close>







section \<open>The input after a transform\<close>

subsection \<open>Transforms only extend the heap\<close>

text \<open>
  No statement of a transform function removes or replaces an object that was there
  when it was called: gates are constructed, \<open>qml.apply\<close> queues or copies, and the
  decorator assigns to the tape it created itself.
\<close>

lemma extends_iff: "extends h h' = (\<exists>ys. h' = h @ ys)"
  unfolding extends_def by (metis append_eq_conv_conj append_take_drop_id)

lemma extends_refl: "extends h h"
  by (simp add: extends_def)

lemma extends_append: "extends h h' \<Longrightarrow> extends h (h' @ ys)"
  by (auto simp: extends_iff)

lemma extends_trans: "extends h h' \<Longrightarrow> extends h' h'' \<Longrightarrow> extends h h''"
  by (auto simp: extends_iff)

lemma extends_length: "extends h h' \<Longrightarrow> length h \<le> length h'"
  by (auto simp: extends_iff)

lemma extends_update: "extends h h' \<Longrightarrow> length h \<le> n \<Longrightarrow> extends h (h'[n := x])"
  by (simp add: extends_def)

lemma construct_extends: "extends h (fst c) \<Longrightarrow> extends h (fst (construct x c))"
  by (simp add: construct_def extends_append)

lemma qml_apply_ref_extends: "extends h (fst c) \<Longrightarrow> extends h (fst (qml_apply_ref r c))"
  by (simp add: qml_apply_ref_def extends_append)

lemma adjoint_ref_extends: "extends h (fst c) \<Longrightarrow> extends h (fst (adjoint_ref adjoint r c))"
  by (simp add: adjoint_ref_def construct_extends split: obj.splits item.splits)

lemma fold_extends:
  assumes "\<And>r c. extends h (fst c) \<Longrightarrow> extends h (fst (f r c))"
  shows "extends h (fst c) \<Longrightarrow> extends h (fst (fold f rs c))"
  by (induction rs arbitrary: c) (simp_all add: assms)

lemma fold_once_ref_extends:
  "extends h (fst c) \<Longrightarrow> extends h (fst (fold_once_ref adjoint tape c))"
  unfolding fold_once_ref_def Let_def
  by (intro fold_extends qml_apply_ref_extends adjoint_ref_extends)

lemma funpow_extends:
  fixes f :: "recording \<Rightarrow> recording"
  assumes "\<And>c. extends h (fst c) \<Longrightarrow> extends h (fst (f c))"
  shows "extends h (fst c) \<Longrightarrow> extends h (fst ((f ^^ n) c))"
proof (induction n)
  case 0
  then show ?case by simp
next
  case (Suc n)
  then have "extends h (fst (f ((f ^^ n) c)))" by (intro assms) simp
  then show ?case by simp
qed

lemma unitary_folding_fn_extends:
  "extends h (fst c) \<Longrightarrow> extends h (fst (snd (unitary_folding_fn adjoint scale_factor tape c)))"
  unfolding unitary_folding_fn_def Let_def snd_conv
  by (intro fold_extends qml_apply_ref_extends funpow_extends fold_once_ref_extends)

lemma for_each_ref_extends:
  assumes "\<And>r c c'. extends h (fst c) \<Longrightarrow> body r c = Inr c' \<Longrightarrow> extends h (fst c')"
  shows "extends h (fst c) \<Longrightarrow> extends h (fst (snd (for_each_ref body rs c)))"
  by (induction rs arbitrary: c) (auto split: sum.splits intro: assms)

lemma convert_cnots_step_extends:
  "extends h (fst c) \<Longrightarrow> convert_cnots_step r c = Inr c' \<Longrightarrow> extends h (fst c')"
  by (auto simp: convert_cnots_step_def bind_err_def construct_extends qml_apply_ref_extends
      split: obj.splits item.splits if_splits sum.splits)

lemma overrotate_rx_step_extends:
  "extends h (fst c) \<Longrightarrow> overrotate_rx_step epsilon r c = Inr c' \<Longrightarrow> extends h (fst c')"
  by (auto simp: overrotate_rx_step_def bind_err_def construct_extends qml_apply_ref_extends
      split: obj.splits item.splits if_splits sum.splits)

lemma convert_cnots_fn_extends:
  "extends h (fst c) \<Longrightarrow> extends h (fst (snd (convert_cnots_fn tape c)))"
  unfolding convert_cnots_fn_def
  by (rule for_each_ref_extends) (rule convert_cnots_step_extends)

lemma overrotate_rx_fn_extends:
  "extends h (fst c) \<Longrightarrow> extends h (fst (snd (overrotate_rx_fn epsilon tape c)))"
  unfolding overrotate_rx_fn_def
  by (rule for_each_ref_extends) (rule overrotate_rx_step_extends)

lemma single_tape_transform_extends:
  assumes "\<And>c. extends h (fst c) \<Longrightarrow> extends h (fst (snd (transform_fn tape c)))"
  shows "extends h (snd (single_tape_transform transform_fn tape h))"
proof -
  obtain raised c where run: "transform_fn tape (h @ [TapeObj [] []], []) = (raised, c)"
    by (cases "transform_fn tape (h @ [TapeObj [] []], [])")
  have "extends h (fst (h @ [TapeObj [] []], []::ref list))"
    by (simp add: extends_append extends_refl)
  from assms [OF this] have "extends h (fst c)" by (simp add: run)
  then show ?thesis
    by (simp add: single_tape_transform_def Let_def run extends_update split: option.splits)
qed

lemma single_tape_transform_fresh:
  "fst (single_tape_transform transform_fn tape h) = Inr r \<Longrightarrow> r = length h"
  by (auto simp: single_tape_transform_def Let_def split: prod.splits option.splits)

lemma map_refs_extends:
  assumes "\<And>x h'. extends h h' \<Longrightarrow> extends h (snd (f x h'))"
  shows "extends h h' \<Longrightarrow> extends h (snd (map_refs f xs h'))"
proof (induction xs arbitrary: h')
  case Nil
  then show ?case by simp
next
  case (Cons x xs)
  obtain res h1 where f: "f x h' = (res, h1)" by (cases "f x h'")
  have h1: "extends h h1" using assms [OF Cons.prems, of x] by (simp add: f)
  obtain res2 h2 where m: "map_refs f xs h1 = (res2, h2)" by (cases "map_refs f xs h1")
  have "extends h h2" using Cons.IH [OF h1] by (simp add: m)
  with h1 show ?case by (simp add: f m split: sum.splits)
qed

lemma zne_heap_extends:
  assumes "\<And>scale h'. extends h h' \<Longrightarrow> extends h (snd (mitigation_transform tape scale h'))"
  shows "extends h (snd (zne_heap math_sum tape mitigation_transform scale_factors h))"
proof -
  have "extends h (snd (map_refs (\<lambda>scale. mitigation_transform tape scale) scale_factors h))"
    by (rule map_refs_extends) (simp_all add: assms extends_refl)
  then show ?thesis
    by (auto simp: zne_heap_def split: prod.splits sum.splits)
qed

subsection \<open>The transforms on the heap compute the transforms on values\<close>

text \<open>
  The queue of references on the heap stands for the queue of values at every step.
\<close>

lemma extends_nth: "extends h h' \<Longrightarrow> r < length h \<Longrightarrow> h' ! r = h ! r"
  by (auto simp: extends_iff nth_append)

lemma deref_append_heap:
  assumes "\<forall>r\<in>set rs. r < length h"
  shows "deref (h @ ys) rs = deref h rs"
proof -
  have "map (\<lambda>r. (h @ ys) ! r) rs = map (\<lambda>r. h ! r) rs"
    using assms by (simp add: nth_append)
  then show ?thesis by (simp only: deref_def)
qed

lemma items_append: "items (a @ b) = items a @ items b"
  by (induction a rule: items.induct) simp_all

lemma deref_snoc: "deref h (rs @ [r]) = deref h rs @ items [h ! r]"
  by (simp add: deref_def items_append)

lemma sim_snoc:
  assumes "sim h c q"
  shows "sim h (fst c @ [Item x], snd c @ [length (fst c)]) (q @ [x])"
proof -
  from assms have ext: "extends h (fst c)"
    and all: "\<forall>r\<in>set (snd c). r < length (fst c) \<and> is_item (fst c ! r)"
    and val: "deref (fst c) (snd c) = q"
    by (simp_all add: sim_def)
  have "\<forall>r\<in>set (snd c). r < length (fst c)" using all by simp
  then have "deref (fst c @ [Item x]) (snd c) = q" using val by (simp add: deref_append_heap)
  then have "deref (fst c @ [Item x]) (snd c @ [length (fst c)]) = q @ [x]"
    by (simp add: deref_snoc)
  moreover have "\<forall>r\<in>set (snd c @ [length (fst c)]).
      r < length (fst c @ [Item x]) \<and> is_item ((fst c @ [Item x]) ! r)"
    using all by (auto simp: nth_append)
  ultimately show ?thesis using ext by (simp add: sim_def extends_append)
qed

lemma sim_construct: "sim h c q \<Longrightarrow> sim h (construct x c) (qml_apply x q)"
  unfolding construct_def qml_apply_def by (rule sim_snoc)

lemma sim_qml_apply_ref:
  assumes "sim h c q" "names h r x"
  shows "sim h (qml_apply_ref r c) (qml_apply x q)"
proof -
  have r: "r < length (fst c)" "fst c ! r = Item x"
    using assms extends_nth [of h "fst c" r] extends_length [of h "fst c"]
    by (auto simp: sim_def names_def)
  show ?thesis
  proof (cases "r \<in> set (snd c)")
    case True
    then show ?thesis
      using sim_snoc [OF assms(1), of x] r by (simp add: qml_apply_ref_def qml_apply_def)
  next
    case False
    then show ?thesis
      using assms(1) r unfolding sim_def qml_apply_ref_def qml_apply_def
      by (simp add: deref_snoc)
  qed
qed

lemma sim_fold_apply:
  "list_all2 (names h) rs xs \<Longrightarrow> sim h c q \<Longrightarrow>
     sim h (fold qml_apply_ref rs c) (fold qml_apply xs q)"
proof (induction rs xs arbitrary: c q rule: list_all2_induct)
  case Nil
  then show ?case by simp
next
  case (Cons r rs x xs)
  then show ?case by (simp add: sim_qml_apply_ref)
qed

lemma sim_adjoint_ref:
  assumes "sim h c q" "names h r (Op op)"
  shows "sim h (adjoint_ref adjoint r c) (qml_apply (Op (adjoint op)) q)"
proof -
  have "fst c ! r = Item (Op op)"
    using assms extends_nth [of h "fst c" r] by (auto simp: sim_def names_def)
  then show ?thesis using assms(1) by (simp add: adjoint_ref_def sim_construct)
qed

lemma sim_fold_adjoint:
  "list_all2 (\<lambda>r op. names h r (Op op)) rs ops \<Longrightarrow> sim h c q \<Longrightarrow>
     sim h (fold (adjoint_ref adjoint) rs c) (fold (\<lambda>op. qml_apply (Op (adjoint op))) ops q)"
proof (induction rs ops arbitrary: c q rule: list_all2_induct)
  case Nil
  then show ?case by simp
next
  case (Cons r rs x xs)
  then show ?case by (simp add: sim_adjoint_ref)
qed

lemma operations_of_extends:
  "extends h h' \<Longrightarrow> t < length h \<Longrightarrow> operations_of h' t = operations_of h t"
  by (simp add: operations_of_def extends_nth)

lemma measurements_of_extends:
  "extends h h' \<Longrightarrow> t < length h \<Longrightarrow> measurements_of h' t = measurements_of h t"
  by (simp add: measurements_of_def extends_nth)

lemma names_operations:
  "list_all (\<lambda>r. r < length h \<and> is_operation (h ! r)) rs \<Longrightarrow>
     list_all2 (\<lambda>r op. names h r (Op op)) rs (queued_operations (deref h rs))"
proof (induction rs)
  case Nil
  then show ?case by (simp add: deref_def)
next
  case (Cons r rs)
  then obtain op where "h ! r = Item (Op op)"
    by (cases "h ! r" rule: is_operation.cases) simp_all
  with Cons show ?case by (simp add: deref_def names_def)
qed

lemma names_measurements:
  "list_all (\<lambda>r. r < length h \<and> is_measurement (h ! r)) rs \<Longrightarrow>
     list_all2 (\<lambda>r m. names h r (Meas m)) rs (queued_measurements (deref h rs))"
proof (induction rs)
  case Nil
  then show ?case by (simp add: deref_def)
next
  case (Cons r rs)
  then obtain m where "h ! r = Item (Meas m)"
    by (cases "h ! r" rule: is_measurement.cases) simp_all
  with Cons show ?case by (simp add: deref_def names_def)
qed

lemma valid_tape_operations:
  "valid_tape h t \<Longrightarrow>
     list_all2 (\<lambda>r op. names h r (Op op)) (operations_of h t) (operations (tape_value h t))"
  by (auto simp: valid_tape_def operations_of_def tape_value_def names_operations
      split: obj.splits)

lemma valid_tape_measurements:
  "valid_tape h t \<Longrightarrow>
     list_all2 (\<lambda>r m. names h r (Meas m)) (measurements_of h t) (measurements (tape_value h t))"
  by (auto simp: valid_tape_def measurements_of_def tape_value_def names_measurements
      split: obj.splits)

lemma names_map_Op:
  "list_all2 (\<lambda>r op. names h r (Op op)) rs ops \<Longrightarrow> list_all2 (names h) rs (map Op ops)"
  by (simp add: list_all2_map2)

lemma names_map_Meas:
  "list_all2 (\<lambda>r m. names h r (Meas m)) rs ms \<Longrightarrow> list_all2 (names h) rs (map Meas ms)"
  by (simp add: list_all2_map2)

lemma names_extends: "extends h h' \<Longrightarrow> names h r x \<Longrightarrow> names h' r x"
  using extends_nth [of h h' r] extends_length [of h h'] by (auto simp: names_def)

lemma names_extends_all:
  "extends h h' \<Longrightarrow> list_all2 (names h) rs xs \<Longrightarrow> list_all2 (names h') rs xs"
  by (erule list_all2_mono) (rule names_extends)

lemma valid_tape_circuit:
  "valid_tape h t \<Longrightarrow>
     list_all2 (names h) (operations_of h t @ measurements_of h t) (circuit (tape_value h t))"
  unfolding circuit_def
  by (intro list_all2_appendI names_map_Op names_map_Meas valid_tape_operations
      valid_tape_measurements)

lemma queued_operations_filter:
  "\<forall>r\<in>set q. r < length h \<and> is_item (h ! r) \<Longrightarrow>
     queued_operations (deref h (filter (\<lambda>r. is_operation (h ! r)) q)) =
       queued_operations (deref h q)"
proof (induction q)
  case Nil
  then show ?case by simp
next
  case (Cons r q)
  then show ?case by (cases "h ! r" rule: is_operation.cases) (simp_all add: deref_def)
qed

lemma queued_measurements_filter:
  "\<forall>r\<in>set q. r < length h \<and> is_item (h ! r) \<Longrightarrow>
     queued_measurements (deref h (filter (\<lambda>r. is_measurement (h ! r)) q)) =
       queued_measurements (deref h q)"
proof (induction q)
  case Nil
  then show ?case by simp
next
  case (Cons r q)
  then show ?case by (cases "h ! r" rule: is_measurement.cases) (simp_all add: deref_def)
qed

lemma deref_update:
  assumes "\<forall>r\<in>set rs. r \<noteq> n"
  shows "deref (h[n := x]) rs = deref h rs"
proof -
  have "\<And>r. r \<in> set rs \<Longrightarrow> h[n := x] ! r = h ! r"
    using assms by (metis nth_list_update_neq)
  then have "map (\<lambda>r. h[n := x] ! r) rs = map (\<lambda>r. h ! r) rs" by simp
  then show ?thesis by (simp only: deref_def)
qed

lemma sim_new_tape:
  assumes "sim (h @ [TapeObj [] []]) c q"
  shows "tape_value
           ((fst c)[length h := TapeObj (filter (\<lambda>r. is_operation (fst c ! r)) (snd c))
                                         (filter (\<lambda>r. is_measurement (fst c ! r)) (snd c))])
           (length h) = tape_of_queue q"
proof -
  let ?ops = "filter (\<lambda>r. is_operation (fst c ! r)) (snd c)"
  let ?ms = "filter (\<lambda>r. is_measurement (fst c ! r)) (snd c)"
  from assms have ext: "extends (h @ [TapeObj [] []]) (fst c)"
    and all: "\<forall>r\<in>set (snd c). r < length (fst c) \<and> is_item (fst c ! r)"
    and val: "deref (fst c) (snd c) = q"
    by (simp_all add: sim_def)
  have n: "length h < length (fst c)" using extends_length [OF ext] by simp
  have cell: "fst c ! length h = TapeObj [] []" using extends_nth [OF ext, of "length h"] by simp
  have ne: "\<forall>r\<in>set (snd c). r \<noteq> length h"
    using all cell by auto
  then have ne1: "\<forall>r\<in>set ?ops. r \<noteq> length h" and ne2: "\<forall>r\<in>set ?ms. r \<noteq> length h"
    by auto
  show ?thesis
    using n val
    by (simp add: tape_value_def tape_of_queue_def operations_of_def measurements_of_def
        deref_update [OF ne1] deref_update [OF ne2]
        queued_operations_filter [OF all] queued_measurements_filter [OF all])
qed

lemma sim_enter: "sim (h @ [TapeObj [] []]) (h @ [TapeObj [] []], []) []"
  by (simp add: sim_def extends_refl deref_def)

lemma valid_tape_extends: "extends h h' \<Longrightarrow> valid_tape h t \<Longrightarrow> valid_tape h' t"
proof -
  assume e: "extends h h'" and v: "valid_tape h t"
  then obtain ys where h': "h' = h @ ys" by (auto simp: extends_iff)
  from v show "valid_tape h' t"
    by (auto simp: valid_tape_def h' nth_append list_all_iff split: obj.splits)
qed

lemma sim_lookup: "sim h c q \<Longrightarrow> names h r x \<Longrightarrow> fst c ! r = Item x"
  using extends_nth [of h "fst c" r] by (auto simp: sim_def names_def)

lemma sim_operations_of: "sim h c q \<Longrightarrow> t < length h \<Longrightarrow> operations_of (fst c) t = operations_of h t"
  by (simp add: sim_def operations_of_extends)

lemma sim_measurements_of:
  "sim h c q \<Longrightarrow> t < length h \<Longrightarrow> measurements_of (fst c) t = measurements_of h t"
  by (simp add: sim_def measurements_of_extends)

lemma valid_tape_in_range: "valid_tape h t \<Longrightarrow> t < length h"
  by (simp add: valid_tape_def)

lemma tape_value_extends:
  assumes "valid_tape h t" "extends h h'"
  shows "tape_value h' t = tape_value h t"
proof -
  obtain ys where h': "h' = h @ ys" using assms(2) by (auto simp: extends_iff)
  have t: "t < length h" using assms(1) by (rule valid_tape_in_range)
  have o: "\<forall>r\<in>set (operations_of h t). r < length h"
    using assms(1) by (auto simp: valid_tape_def operations_of_def list_all_iff split: obj.splits)
  have m: "\<forall>r\<in>set (measurements_of h t). r < length h"
    using assms(1) by (auto simp: valid_tape_def measurements_of_def list_all_iff split: obj.splits)
  show ?thesis
    unfolding tape_value_def operations_of_extends [OF assms(2) t]
      measurements_of_extends [OF assms(2) t]
    by (simp add: h' deref_append_heap [OF o] deref_append_heap [OF m])
qed

lemma sim_fold_once:
  assumes "valid_tape h t" "sim h c q"
  shows "sim h (fold_once_ref adjoint t c) (fold_once adjoint (tape_value h t) q)"
proof -
  note t = valid_tape_in_range [OF assms(1)]
  note ops = valid_tape_operations [OF assms(1)]
  let ?c' = "fold (adjoint_ref adjoint) (rev (operations_of h t)) c"
  have "list_all2 (\<lambda>r op. names h r (Op op)) (rev (operations_of h t))
      (rev (operations (tape_value h t)))"
    using ops by (simp add: list_all2_rev)
  then have c': "sim h ?c'
      (fold (\<lambda>op. qml_apply (Op (adjoint op))) (rev (operations (tape_value h t))) q)"
    using assms(2) by (rule sim_fold_adjoint)
  have "sim h (fold qml_apply_ref (operations_of h t) ?c')
      (fold qml_apply (map Op (operations (tape_value h t)))
        (fold (\<lambda>op. qml_apply (Op (adjoint op))) (rev (operations (tape_value h t))) q))"
    using names_map_Op [OF ops] c' by (rule sim_fold_apply)
  then show ?thesis
    unfolding fold_once_ref_def fold_once_def Let_def
      sim_operations_of [OF assms(2) t] sim_operations_of [OF c' t]
    by (simp add: fold_map comp_def)
qed

lemma sim_funpow_fold_once:
  assumes "valid_tape h t" "sim h c q"
  shows "sim h ((fold_once_ref adjoint t ^^ n) c) ((fold_once adjoint (tape_value h t) ^^ n) q)"
proof (induction n)
  case 0
  show ?case using assms(2) by simp
next
  case (Suc n)
  from sim_fold_once [OF assms(1) Suc] show ?case by simp
qed

lemma sim_unitary_folding_fn:
  assumes "valid_tape h t" "sim h c []"
  shows "fst (unitary_folding_fn adjoint scale_factor t c) = None"
    and "\<exists>q. sim h (snd (unitary_folding_fn adjoint scale_factor t c)) q \<and>
           tape_of_queue q = unitary_folding adjoint (tape_value h t) scale_factor"
proof -
  note t = valid_tape_in_range [OF assms(1)]
  let ?tv = "tape_value h t"
  let ?c1 = "fold qml_apply_ref (operations_of h t) c"
  let ?q1 = "fold qml_apply (map Op (operations ?tv)) []"
  let ?c2 = "(fold_once_ref adjoint t ^^ nat (num_folds scale_factor)) ?c1"
  let ?q2 = "(fold_once adjoint ?tv ^^ nat (num_folds scale_factor)) ?q1"
  let ?c3 = "fold qml_apply_ref (measurements_of h t) ?c2"
  let ?q3 = "fold qml_apply (map Meas (measurements ?tv)) ?q2"
  have c1: "sim h ?c1 ?q1"
    using names_map_Op [OF valid_tape_operations [OF assms(1)]] assms(2) by (rule sim_fold_apply)
  have c2: "sim h ?c2 ?q2" using assms(1) c1 by (rule sim_funpow_fold_once)
  have c3: "sim h ?c3 ?q3"
    using names_map_Meas [OF valid_tape_measurements [OF assms(1)]] c2 by (rule sim_fold_apply)
  have run: "snd (unitary_folding_fn adjoint scale_factor t c) = ?c3"
    unfolding unitary_folding_fn_def Let_def snd_conv
      sim_operations_of [OF assms(2) t] sim_measurements_of [OF c2 t] ..
  have "tape_of_queue ?q3 = unitary_folding adjoint ?tv scale_factor"
    by (simp add: unitary_folding_def Let_def fold_map comp_def)
  with c3 run show "\<exists>q. sim h (snd (unitary_folding_fn adjoint scale_factor t c)) q \<and>
           tape_of_queue q = unitary_folding adjoint (tape_value h t) scale_factor"
    by auto
  show "fst (unitary_folding_fn adjoint scale_factor t c) = None"
    by (simp add: unitary_folding_fn_def Let_def)
qed

lemma single_tape_transform_returns:
  assumes "fst (transform_fn t (h @ [TapeObj [] []], [])) = None"
    and "sim (h @ [TapeObj [] []]) (snd (transform_fn t (h @ [TapeObj [] []], []))) q"
  shows "fst (single_tape_transform transform_fn t h) = Inr (length h)"
    and "tape_value (snd (single_tape_transform transform_fn t h)) (length h) = tape_of_queue q"
proof -
  obtain c where run: "transform_fn t (h @ [TapeObj [] []], []) = (None, c)"
    using assms(1) by (cases "transform_fn t (h @ [TapeObj [] []], [])") simp
  then have "sim (h @ [TapeObj [] []]) c q" using assms(2) by simp
  from sim_new_tape [OF this]
  show "tape_value (snd (single_tape_transform transform_fn t h)) (length h) = tape_of_queue q"
    by (simp add: single_tape_transform_def Let_def run)
  show "fst (single_tape_transform transform_fn t h) = Inr (length h)"
    by (simp add: single_tape_transform_def Let_def run)
qed

lemma single_tape_transform_raises:
  assumes "fst (transform_fn t (h @ [TapeObj [] []], [])) = Some e"
  shows "fst (single_tape_transform transform_fn t h) = Inl e"
proof -
  obtain c where run: "transform_fn t (h @ [TapeObj [] []], []) = (Some e, c)"
    using assms(1) by (cases "transform_fn t (h @ [TapeObj [] []], [])") simp
  then show ?thesis by (simp add: single_tape_transform_def Let_def)
qed

lemma extends_enter: "extends h (h @ [TapeObj [] []])"
  by (rule extends_append) (rule extends_refl)

lemma valid_tape_enter: "valid_tape h t \<Longrightarrow> valid_tape (h @ [TapeObj [] []]) t"
  using extends_enter by (rule valid_tape_extends)

lemma tape_value_enter: "valid_tape h t \<Longrightarrow> tape_value (h @ [TapeObj [] []]) t = tape_value h t"
  using extends_enter by (rule tape_value_extends [rotated])

text \<open>
  The tape returned on the heap is a new object that stands for the tape the transform
  on values returns, and an exception of the one is an exception of the other.
\<close>

lemma unitary_folding_heap_refines:
  assumes "valid_tape h t"
  shows "fst (unitary_folding_heap adjoint t scale_factor h) = Inr (length h) \<and>
         tape_value (snd (unitary_folding_heap adjoint t scale_factor h)) (length h) =
           unitary_folding adjoint (tape_value h t) scale_factor"
proof -
  note v = valid_tape_enter [OF assms]
  from sim_unitary_folding_fn [OF v sim_enter, of adjoint scale_factor]
  obtain q where none: "fst (unitary_folding_fn adjoint scale_factor t (h @ [TapeObj [] []], [])) = None"
    and q: "sim (h @ [TapeObj [] []])
          (snd (unitary_folding_fn adjoint scale_factor t (h @ [TapeObj [] []], []))) q"
    and tq: "tape_of_queue q = unitary_folding adjoint (tape_value h t) scale_factor"
    by (auto simp: tape_value_enter [OF assms])
  from single_tape_transform_returns
    [where transform_fn = "unitary_folding_fn adjoint scale_factor" and t = t and h = h, OF none q] tq
  show ?thesis by (simp add: unitary_folding_heap_def)
qed

lemma for_each_ref_sim:
  assumes body: "\<And>r x c q. names h r x \<Longrightarrow> sim h c q \<Longrightarrow>
      (case body x q of Inl e \<Rightarrow> step r c = Inl e
       | Inr q' \<Rightarrow> \<exists>c'. step r c = Inr c' \<and> sim h c' q')"
  shows "list_all2 (names h) rs xs \<Longrightarrow> sim h c q \<Longrightarrow>
     (case for_each body xs q of Inl e \<Rightarrow> fst (for_each_ref step rs c) = Some e
      | Inr q' \<Rightarrow> fst (for_each_ref step rs c) = None \<and> sim h (snd (for_each_ref step rs c)) q')"
proof (induction rs xs arbitrary: c q rule: list_all2_induct)
  case Nil
  then show ?case by simp
next
  case (Cons r rs x xs)
  show ?case
  proof (cases "body x q")
    case (Inl e)
    with body [OF Cons.hyps(1) Cons.prems] show ?thesis by (simp add: bind_err_def)
  next
    case (Inr q')
    with body [OF Cons.hyps(1) Cons.prems] obtain c' where
      c': "step r c = Inr c'" "sim h c' q'" by auto
    from Cons.IH [OF c'(2)] show ?thesis
      by (cases "for_each body xs q'") (simp_all add: bind_err_def Inr c'(1))
  qed
qed

lemma convert_cnots_step_sim:
  assumes "names h r x" "sim h c q"
  shows "case convert_cnots_body x q of Inl e \<Rightarrow> convert_cnots_step r c = Inl e
         | Inr q' \<Rightarrow> \<exists>c'. convert_cnots_step r c = Inr c' \<and> sim h c' q'"
proof -
  note look = sim_lookup [OF assms(2,1)]
  show ?thesis
  proof (cases x)
    case (Op op)
    show ?thesis
    proof (cases "name op = ''CNOT''")
      case True
      show ?thesis
        using look assms(2)
        by (auto simp: Op True convert_cnots_step_def bind_err_def index_def sim_construct)
    next
      case False
      then show ?thesis
        using look sim_qml_apply_ref [OF assms(2,1)] by (simp add: Op convert_cnots_step_def)
    qed
  next
    case (Meas m)
    then show ?thesis
      using look sim_qml_apply_ref [OF assms(2,1)] by (simp add: convert_cnots_step_def)
  qed
qed

lemma overrotate_rx_step_sim:
  assumes "names h r x" "sim h c q"
  shows "case overrotate_rx_body epsilon x q of Inl e \<Rightarrow> overrotate_rx_step epsilon r c = Inl e
         | Inr q' \<Rightarrow> \<exists>c'. overrotate_rx_step epsilon r c = Inr c' \<and> sim h c' q'"
proof -
  note look = sim_lookup [OF assms(2,1)]
  show ?thesis
  proof (cases x)
    case (Op op)
    show ?thesis
    proof (cases "name op = ''RX''")
      case True
      show ?thesis
        using look assms(2)
        by (auto simp: Op True overrotate_rx_step_def bind_err_def index_def sim_construct)
    next
      case False
      then show ?thesis
        using look sim_qml_apply_ref [OF assms(2,1)] by (simp add: Op overrotate_rx_step_def)
    qed
  next
    case (Meas m)
    then show ?thesis
      using look sim_qml_apply_ref [OF assms(2,1)] by (simp add: overrotate_rx_step_def)
  qed
qed

lemma for_each_transform_refines:
  assumes body: "\<And>r x c q. names (h @ [TapeObj [] []]) r x \<Longrightarrow> sim (h @ [TapeObj [] []]) c q \<Longrightarrow>
      (case body x q of Inl e \<Rightarrow> step r c = Inl e
       | Inr q' \<Rightarrow> \<exists>c'. step r c = Inr c' \<and> sim (h @ [TapeObj [] []]) c' q')"
    and v: "valid_tape h t"
  shows "case bind_err (for_each body (circuit (tape_value h t)) []) (\<lambda>q. Inr (tape_of_queue q)) of
           Inl e \<Rightarrow>
             fst (single_tape_transform
                   (\<lambda>tape c. for_each_ref step
                      (operations_of (fst c) tape @ measurements_of (fst c) tape) c) t h) = Inl e
         | Inr tv \<Rightarrow>
             fst (single_tape_transform
                   (\<lambda>tape c. for_each_ref step
                      (operations_of (fst c) tape @ measurements_of (fst c) tape) c) t h) =
               Inr (length h) \<and>
             tape_value (snd (single_tape_transform
                   (\<lambda>tape c. for_each_ref step
                      (operations_of (fst c) tape @ measurements_of (fst c) tape) c) t h))
               (length h) = tv"
proof -
  let ?h1 = "h @ [TapeObj [] []]"
  let ?fn = "\<lambda>tape c. for_each_ref step
                      (operations_of (fst c) tape @ measurements_of (fst c) tape) c"
  note v1 = valid_tape_enter [OF v]
  have circ: "list_all2 (names ?h1) (operations_of ?h1 t @ measurements_of ?h1 t)
      (circuit (tape_value h t))"
    using valid_tape_circuit [OF v1] by (simp add: tape_value_enter [OF v])
  note loop = for_each_ref_sim [where body = body and step = step, OF body circ sim_enter]
  show ?thesis
  proof (cases "for_each body (circuit (tape_value h t)) []")
    case (Inl e)
    with loop have "fst (?fn t (?h1, [])) = Some e" by simp
    from single_tape_transform_raises [where transform_fn = ?fn and t = t and h = h, OF this]
    show ?thesis by (simp add: Inl bind_err_def)
  next
    case (Inr q)
    with loop have "fst (?fn t (?h1, [])) = None" "sim ?h1 (snd (?fn t (?h1, []))) q" by simp_all
    from single_tape_transform_returns [where transform_fn = ?fn and t = t and h = h, OF this]
    show ?thesis by (simp add: Inr bind_err_def)
  qed
qed

lemma convert_cnots_heap_refines:
  assumes "valid_tape h t"
  shows "case convert_cnots (tape_value h t) of
           Inl e \<Rightarrow> fst (convert_cnots_heap t h) = Inl e
         | Inr tv \<Rightarrow> fst (convert_cnots_heap t h) = Inr (length h) \<and>
                     tape_value (snd (convert_cnots_heap t h)) (length h) = tv"
proof -
  have fn: "convert_cnots_fn = (\<lambda>tape c. for_each_ref convert_cnots_step
      (operations_of (fst c) tape @ measurements_of (fst c) tape) c)"
    by (simp add: convert_cnots_fn_def fun_eq_iff)
  from for_each_transform_refines [where body = convert_cnots_body and step = convert_cnots_step,
      OF convert_cnots_step_sim assms]
  show ?thesis unfolding convert_cnots_heap_def convert_cnots_def fn .
qed

lemma overrotate_rx_heap_refines:
  assumes "valid_tape h t"
  shows "case overrotate_rx (tape_value h t) epsilon of
           Inl e \<Rightarrow> fst (overrotate_rx_heap t epsilon h) = Inl e
         | Inr tv \<Rightarrow> fst (overrotate_rx_heap t epsilon h) = Inr (length h) \<and>
                     tape_value (snd (overrotate_rx_heap t epsilon h)) (length h) = tv"
proof -
  have fn: "overrotate_rx_fn epsilon = (\<lambda>tape c. for_each_ref (overrotate_rx_step epsilon)
      (operations_of (fst c) tape @ measurements_of (fst c) tape) c)"
    by (simp add: overrotate_rx_fn_def fun_eq_iff)
  from for_each_transform_refines [where body = "overrotate_rx_body epsilon"
      and step = "overrotate_rx_step epsilon", OF overrotate_rx_step_sim assms]
  show ?thesis unfolding overrotate_rx_heap_def overrotate_rx_def fn .
qed

subsection \<open>The input is left as it was\<close>

lemma run_nodes_ok:
  assumes "\<forall>n\<in>set nodes. node_name n = ''rx'' \<longrightarrow> params n \<noteq> []"
  shows "run_nodes angle visited nodes =
     (None, visited @ map (\<lambda>n. if node_name n = ''rx''
                                 then n\<lparr>params := (hd (params n) + angle) # tl (params n)\<rparr>
                                 else n) nodes)"
  using assms
  by (induction nodes arbitrary: visited) (auto split: list.splits)

lemma unitary_folding_heap_extends:
  "extends h (snd (unitary_folding_heap adjoint t scale_factor h))"
  unfolding unitary_folding_heap_def
  by (rule single_tape_transform_extends) (rule unitary_folding_fn_extends)

lemma overrotate_rx_heap_extends: "extends h (snd (overrotate_rx_heap t epsilon h))"
  unfolding overrotate_rx_heap_def
  by (rule single_tape_transform_extends) (rule overrotate_rx_fn_extends)

lemma convert_cnots_heap_extends: "extends h (snd (convert_cnots_heap t h))"
  unfolding convert_cnots_heap_def
  by (rule single_tape_transform_extends) (rule convert_cnots_fn_extends)

lemma mitigation_extends:
  assumes "\<forall>tape scale h. extends h (snd (mitigation_transform tape scale h))"
  shows "extends h (snd (zne_heap math_sum t mitigation_transform scale_factors h))"
proof (rule zne_heap_extends)
  fix scale h'
  assume "extends h h'"
  moreover have "extends h' (snd (mitigation_transform t scale h'))" using assms by simp
  ultimately show "extends h (snd (mitigation_transform t scale h'))" by (rule extends_trans)
qed

lemma map_refs_fresh:
  assumes "\<And>x h' r. fst (f x h') = Inr r \<Longrightarrow> length h' \<le> r"
    and "\<And>x h'. extends h' (snd (f x h'))"
  shows "length h \<le> length h' \<Longrightarrow> fst (map_refs f xs h') = Inr rs \<Longrightarrow> \<forall>r\<in>set rs. length h \<le> r"
proof (induction xs arbitrary: h' rs)
  case Nil
  then show ?case by simp
next
  case (Cons x xs)
  obtain res h1 where f: "f x h' = (res, h1)" by (cases "f x h'")
  obtain res2 h2 where m: "map_refs f xs h1 = (res2, h2)" by (cases "map_refs f xs h1")
  from Cons.prems(2) obtain r rs' where res: "res = Inr r" "res2 = Inr rs'" "rs = r # rs'"
    by (auto simp: f m split: sum.splits)
  have "length h' \<le> r" using assms(1) [of x h' r] by (simp add: f res)
  moreover have "length h' \<le> length h1"
    using assms(2) [of h' x] by (simp add: f extends_length)
  then have "\<forall>r\<in>set rs'. length h \<le> r"
    using Cons.IH [of h1 rs'] Cons.prems(1) by (simp add: m res)
  ultimately show ?case using Cons.prems(1) by (simp add: res)
qed

lemma zne_unitary_folding_fresh:
  assumes "fst (zne_heap math_sum t (unitary_folding_heap adjoint) scale_factors h) =
      Inr (tapes, processing_fn)"
  shows "\<forall>r\<in>set tapes. length h \<le> r"
proof -
  have "fst (map_refs (\<lambda>scale. unitary_folding_heap adjoint t scale) scale_factors h) = Inr tapes"
    using assms by (auto simp: zne_heap_def split: prod.splits sum.splits)
  moreover have "fst (unitary_folding_heap adjoint t x h') = Inr r \<Longrightarrow> length h' \<le> r"
    for x h' r
    unfolding unitary_folding_heap_def by (drule single_tape_transform_fresh) simp
  ultimately show ?thesis
    using map_refs_fresh [where f = "\<lambda>scale. unitary_folding_heap adjoint t scale" and h = h
        and h' = h and xs = scale_factors and rs = tapes]
      unitary_folding_heap_extends
    by blast
qed

lemma valid_example: "valid_tape example_heap 4"
  by (simp add: valid_tape_def example_heap_def)

lemma tape_value_example: "tape_value example_heap 4 = example_tape"
  by (simp add: tape_value_def example_heap_def example_tape_def operations_of_def
      measurements_of_def deref_def)

text \<open>
  On the example heap, \<open>unitary_folding\<close> at scale factor 1 returns a tape that names the
  very objects of its input, and \<open>convert_cnots\<close> a tape that names the new gates and, for
  the \<open>RX\<close> gate and the measurement, the objects of its input.
\<close>

lemma unitary_folding_heap_example:
  "unitary_folding_heap adjoint 4 1 example_heap =
     (Inr 5, example_heap @ [TapeObj [0, 1, 2] [3]])"
  by (simp add: unitary_folding_heap_def single_tape_transform_def unitary_folding_fn_def
      fold_once_ref_def qml_apply_ref_def operations_of_def measurements_of_def
      example_heap_def num_folds_def math_round_def Let_def CNOT_def RX_def)

lemma convert_cnots_heap_example:
  "convert_cnots_heap 4 example_heap =
     (Inr 5, example_heap @
        [TapeObj [6, 7, 8, 1, 9, 10, 11] [3],
         Item (Op (Hadamard 1)), Item (Op (CZ [0, 1])), Item (Op (Hadamard 1)),
         Item (Op (Hadamard 2)), Item (Op (CZ [1, 2])), Item (Op (Hadamard 2))])"
  by (simp add: convert_cnots_heap_def single_tape_transform_def convert_cnots_fn_def
      convert_cnots_step_def construct_def qml_apply_ref_def operations_of_def
      measurements_of_def example_heap_def bind_err_def index_def Let_def CNOT_def RX_def
      Hadamard_def CZ_def)

text \<open>
  Claim C8, as the code has it. The PennyLane transforms \<open>unitary_folding\<close>, \<open>overrotate_rx\<close>,
  \<open>convert_cnots\<close> and \<open>zne\<close> only create objects: whether they return or raise, every
  object of the heap is afterwards as it was before the call, so that the input tape
  still stands for the same operations and measurements, parameter for parameter, and
  the tapes returned are new objects; the tape a single-tape transform returns stands
  for the tape the transform on values returns. \<open>zne\<close> is as good as its mitigation
  transform: it
  keeps the heap when the mitigation transform does, as \<open>unitary_folding\<close> does. The
  Qiskit pass \<open>OverrotateRX.run\<close> is different by design: it adds the angle to the first
  parameter of every \<open>rx\<close> node of the graph it is given and returns that same graph. The
  claim as stated covers the pass too; a graph with one \<open>rx(0.3)\<close> node holds \<open>rx(0.4)\<close>
  after the pass has run with angle \<open>0.1\<close>.
\<close>

theorem input_after_transform:
  assumes "valid_tape h t" and "d < length dags"
    and "\<forall>n\<in>set (dags ! d). node_name n = ''rx'' \<longrightarrow> params n \<noteq> []"
  shows
  "(extends h (snd (unitary_folding_heap adjoint t scale_factor h)) \<and>
    tape_value (snd (unitary_folding_heap adjoint t scale_factor h)) t = tape_value h t \<and>
    fst (unitary_folding_heap adjoint t scale_factor h) = Inr (length h) \<and>
    tape_value (snd (unitary_folding_heap adjoint t scale_factor h)) (length h) =
      unitary_folding adjoint (tape_value h t) scale_factor) \<and>
   (extends h (snd (overrotate_rx_heap t epsilon h)) \<and>
    tape_value (snd (overrotate_rx_heap t epsilon h)) t = tape_value h t \<and>
    (\<forall>e. overrotate_rx (tape_value h t) epsilon = Inl e \<longrightarrow>
       fst (overrotate_rx_heap t epsilon h) = Inl e) \<and>
    (\<forall>t'. overrotate_rx (tape_value h t) epsilon = Inr t' \<longrightarrow>
       fst (overrotate_rx_heap t epsilon h) = Inr (length h) \<and>
       tape_value (snd (overrotate_rx_heap t epsilon h)) (length h) = t')) \<and>
   (extends h (snd (convert_cnots_heap t h)) \<and>
    tape_value (snd (convert_cnots_heap t h)) t = tape_value h t \<and>
    (\<forall>e. convert_cnots (tape_value h t) = Inl e \<longrightarrow> fst (convert_cnots_heap t h) = Inl e) \<and>
    (\<forall>t'. convert_cnots (tape_value h t) = Inr t' \<longrightarrow>
       fst (convert_cnots_heap t h) = Inr (length h) \<and>
       tape_value (snd (convert_cnots_heap t h)) (length h) = t')) \<and>
   (extends h (snd (zne_heap math_sum t (unitary_folding_heap adjoint) scale_factors h)) \<and>
    tape_value (snd (zne_heap math_sum t (unitary_folding_heap adjoint) scale_factors h)) t =
      tape_value h t \<and>
    (\<forall>tapes processing_fn.
       fst (zne_heap math_sum t (unitary_folding_heap adjoint) scale_factors h) =
         Inr (tapes, processing_fn) \<longrightarrow> (\<forall>r\<in>set tapes. length h \<le> r))) \<and>
   ((\<forall>tape scale h'. extends h' (snd (mitigation_transform tape scale h'))) \<longrightarrow>
      extends h (snd (zne_heap math_sum t mitigation_transform scale_factors h)) \<and>
      tape_value (snd (zne_heap math_sum t mitigation_transform scale_factors h)) t =
        tape_value h t) \<and>
   OverrotateRX_run angle d dags =
     (Inr d, dags[d := map (\<lambda>n. if node_name n = ''rx''
                                   then n\<lparr>params := (hd (params n) + angle) # tl (params n)\<rparr>
                                   else n) (dags ! d)])"
proof -
  note keeps = tape_value_extends [OF assms(1)]
  have folding:
    "extends h (snd (unitary_folding_heap adjoint t scale_factor h)) \<and>
     tape_value (snd (unitary_folding_heap adjoint t scale_factor h)) t = tape_value h t \<and>
     fst (unitary_folding_heap adjoint t scale_factor h) = Inr (length h) \<and>
     tape_value (snd (unitary_folding_heap adjoint t scale_factor h)) (length h) =
       unitary_folding adjoint (tape_value h t) scale_factor"
    using unitary_folding_heap_extends [of h adjoint t scale_factor]
      unitary_folding_heap_refines [OF assms(1), of adjoint scale_factor]
    by (simp add: keeps)
  have overrotate:
    "extends h (snd (overrotate_rx_heap t epsilon h)) \<and>
     tape_value (snd (overrotate_rx_heap t epsilon h)) t = tape_value h t \<and>
     (\<forall>e. overrotate_rx (tape_value h t) epsilon = Inl e \<longrightarrow>
        fst (overrotate_rx_heap t epsilon h) = Inl e) \<and>
     (\<forall>t'. overrotate_rx (tape_value h t) epsilon = Inr t' \<longrightarrow>
        fst (overrotate_rx_heap t epsilon h) = Inr (length h) \<and>
        tape_value (snd (overrotate_rx_heap t epsilon h)) (length h) = t')"
    using overrotate_rx_heap_extends [of h t epsilon]
      overrotate_rx_heap_refines [OF assms(1), of epsilon]
    by (auto simp: keeps)
  have convert:
    "extends h (snd (convert_cnots_heap t h)) \<and>
     tape_value (snd (convert_cnots_heap t h)) t = tape_value h t \<and>
     (\<forall>e. convert_cnots (tape_value h t) = Inl e \<longrightarrow> fst (convert_cnots_heap t h) = Inl e) \<and>
     (\<forall>t'. convert_cnots (tape_value h t) = Inr t' \<longrightarrow>
        fst (convert_cnots_heap t h) = Inr (length h) \<and>
        tape_value (snd (convert_cnots_heap t h)) (length h) = t')"
    using convert_cnots_heap_extends [of h t] convert_cnots_heap_refines [OF assms(1)]
    by (auto simp: keeps)
  have e4: "extends h (snd (zne_heap math_sum t (unitary_folding_heap adjoint) scale_factors h))"
    by (rule mitigation_extends) (simp add: unitary_folding_heap_extends)
  have batch:
    "extends h (snd (zne_heap math_sum t (unitary_folding_heap adjoint) scale_factors h)) \<and>
     tape_value (snd (zne_heap math_sum t (unitary_folding_heap adjoint) scale_factors h)) t =
       tape_value h t \<and>
     (\<forall>tapes processing_fn.
        fst (zne_heap math_sum t (unitary_folding_heap adjoint) scale_factors h) =
          Inr (tapes, processing_fn) \<longrightarrow> (\<forall>r\<in>set tapes. length h \<le> r))"
    using e4 keeps [OF e4] zne_unitary_folding_fresh [of math_sum t adjoint scale_factors h]
    by blast
  have any_batch:
    "(\<forall>tape scale h'. extends h' (snd (mitigation_transform tape scale h'))) \<longrightarrow>
       extends h (snd (zne_heap math_sum t mitigation_transform scale_factors h)) \<and>
       tape_value (snd (zne_heap math_sum t mitigation_transform scale_factors h)) t =
         tape_value h t"
  proof
    assume "\<forall>tape scale h'. extends h' (snd (mitigation_transform tape scale h'))"
    then have "extends h (snd (zne_heap math_sum t mitigation_transform scale_factors h))"
      by (rule mitigation_extends)
    then show "extends h (snd (zne_heap math_sum t mitigation_transform scale_factors h)) \<and>
       tape_value (snd (zne_heap math_sum t mitigation_transform scale_factors h)) t =
         tape_value h t"
      using keeps by simp
  qed
  have pass: "OverrotateRX_run angle d dags =
     (Inr d, dags[d := map (\<lambda>n. if node_name n = ''rx''
                                   then n\<lparr>params := (hd (params n) + angle) # tl (params n)\<rparr>
                                   else n) (dags ! d)])"
    using run_nodes_ok [OF assms(3), of angle "[]"] by (simp add: OverrotateRX_run_def)
  from folding overrotate convert batch any_batch pass show ?thesis
    by - ((rule conjI, assumption)+, assumption)
qed

theorem overrotate_pass_counterexample:
  "OverrotateRX_run (1 / 10) 0 [[\<lparr>node_name = ''rx'', params = [3 / 10]\<rparr>]] =
     (Inr 0, [[\<lparr>node_name = ''rx'', params = [2 / 5]\<rparr>]]) \<and>
   snd (OverrotateRX_run (1 / 10) 0 [[\<lparr>node_name = ''rx'', params = [3 / 10]\<rparr>]]) ! 0 \<noteq>
     [[\<lparr>node_name = ''rx'', params = [3 / 10]\<rparr>]] ! 0"
  by (simp add: OverrotateRX_run_def)

theorem input_after_transform_witness:
  "take (length example_heap) (snd (convert_cnots_heap 4 example_heap)) = example_heap \<and>
   tape_value (snd (convert_cnots_heap 4 example_heap)) 4 = example_tape \<and>
   take (length example_heap) (snd (unitary_folding_heap (\<lambda>op. op) 4 3 example_heap)) =
     example_heap \<and>
   fst (unitary_folding_heap (\<lambda>op. op) 4 3 example_heap) = Inr 5 \<and>
   tape_value (snd (unitary_folding_heap (\<lambda>op. op) 4 3 example_heap)) 5 =
     unitary_folding (\<lambda>op. op) example_tape 3 \<and>
   OverrotateRX_run (1 / 10) 0
       [[\<lparr>node_name = ''rx'', params = [3 / 10]\<rparr>, \<lparr>node_name = ''h'', params = []\<rparr>]] =
     (Inr 0, [[\<lparr>node_name = ''rx'', params = [2 / 5]\<rparr>, \<lparr>node_name = ''h'', params = []\<rparr>]])"
proof -
  let ?dags = "[[\<lparr>node_name = ''rx'', params = [3 / 10]\<rparr>, \<lparr>node_name = ''h'', params = []\<rparr>]]"
  have h2: "0 < length ?dags" by simp
  have h3: "\<forall>n\<in>set (?dags ! 0). node_name n = ''rx'' \<longrightarrow> params n \<noteq> []" by simp
  note frame = input_after_transform [OF valid_example h2 h3,
      where adjoint = "\<lambda>op. op" and scale_factor = 3 and angle = "1 / 10"]
  note folding = frame [THEN conjunct1]
  note convert = frame [THEN conjunct2, THEN conjunct2, THEN conjunct1]
  note pass = frame [THEN conjunct2, THEN conjunct2, THEN conjunct2, THEN conjunct2,
      THEN conjunct2]
  have len: "length example_heap = 5" by (simp add: example_heap_def)
  from convert have a: "take (length example_heap) (snd (convert_cnots_heap 4 example_heap)) =
      example_heap"
    and b: "tape_value (snd (convert_cnots_heap 4 example_heap)) 4 = example_tape"
    by (simp_all add: extends_def tape_value_example)
  from folding have c: "take (length example_heap)
      (snd (unitary_folding_heap (\<lambda>op. op) 4 3 example_heap)) = example_heap"
    and d: "fst (unitary_folding_heap (\<lambda>op. op) 4 3 example_heap) = Inr 5"
    and e: "tape_value (snd (unitary_folding_heap (\<lambda>op. op) 4 3 example_heap)) 5 =
      unitary_folding (\<lambda>op. op) example_tape 3"
    by (simp_all add: extends_def tape_value_example len)
  from pass have f: "OverrotateRX_run (1 / 10) 0 ?dags =
      (Inr 0, [[\<lparr>node_name = ''rx'', params = [2 / 5]\<rparr>, \<lparr>node_name = ''h'', params = []\<rparr>]])"
    by simp
  from a b c d e f show ?thesis by (intro conjI)
qed

end
